theory Spec2Isabelle
  imports Complex_Main "HOL-Library.Word"
begin

unbundle bit_operations_syntax

chapter \<open>The incremental turn processor of baby-games: model\<close>

section \<open>Decoder: \<^verbatim>\<open>decodeAudioData\<close> (services/geminiService)\<close>

text \<open>
  Exceptions of the platform that the service's \<^verbatim>\<open>try/catch\<close> blocks swallow.
\<close>

datatype js_exception = RangeError | NotSupportedError | InvalidCharacterError | NetworkError

text \<open>
  An \<^verbatim>\<open>AudioBuffer\<close>: channel count, length in sample frames, sample rate, and one
  list of samples per channel. Samples are held as reals: every value the decoder writes is
  a 16-bit integer over \<open>2^15\<close>, which a 32-bit float stores exactly.
\<close>

record audio_buffer =
  ab_numberOfChannels :: nat
  ab_length :: nat
  ab_sampleRate :: nat
  ab_channelData :: "real list list"

definition duration :: "audio_buffer \<Rightarrow> real" where
  "duration b = real (ab_length b) / real (ab_sampleRate b)"

text \<open>
  \<^verbatim>\<open>new Int16Array(data.buffer)\<close>: a view of the bytes as 16-bit two's-complement
  integers, low byte first (the byte order of every platform the application runs on).
\<close>

fun int16Array :: "8 word list \<Rightarrow> 16 word list" where
  "int16Array (lo # hi # rest) = word_cat hi lo # int16Array rest"
| "int16Array _ = []"

text \<open>
  \<^verbatim>\<open>decodeAudioData(data, ctx, sampleRate = 24000, numChannels = 1)\<close>.
  The \<^verbatim>\<open>Int16Array\<close> constructor throws a RangeError on a byte length that is not a
  multiple of two, and \<^verbatim>\<open>createBuffer\<close> throws NotSupportedError on zero channels, a
  zero length or a zero rate. \<^verbatim>\<open>frameCount\<close> is a quotient; \<^verbatim>\<open>createBuffer\<close>
  truncates it, and writes past the end of a channel are dropped, so each channel holds
  \<open>length dataInt16 div numChannels\<close> samples.
\<close>

definition decodeAudioData :: "8 word list \<Rightarrow> nat \<Rightarrow> nat \<Rightarrow> js_exception + audio_buffer" where
  "decodeAudioData data sampleRate numChannels =
     (if odd (length data) then Inl RangeError
      else let dataInt16 = int16Array data;
               frameCount = length dataInt16 div numChannels
           in if numChannels = 0 \<or> frameCount = 0 \<or> sampleRate = 0 then Inl NotSupportedError
              else Inr \<lparr> ab_numberOfChannels = numChannels, ab_length = frameCount,
                         ab_sampleRate = sampleRate,
                         ab_channelData = map (\<lambda>channel. map (\<lambda>i.
                            real_of_int (sint (dataInt16 ! (i * numChannels + channel))) / 32768.0)
                            [0..<frameCount]) [0..<numChannels] \<rparr>)"

section \<open>Strings\<close>

text \<open>
  A JavaScript string is a sequence of UTF-16 code units; \<^verbatim>\<open>length\<close>, \<^verbatim>\<open>substring\<close>,
  \<^verbatim>\<open>includes\<close>, \<^verbatim>\<open>replace\<close> and the regular expressions of the application (none has
  the \<^verbatim>\<open>u\<close> flag) all work on code units. A code unit is held as its number; the
  application compares code units and never computes with them, so the strings of the
  program are the lists of numbers below \<open>2^16\<close>. \<open>str\<close> writes an ASCII literal.
\<close>

type_synonym code_unit = nat

type_synonym jsstring = "code_unit list"

definition str :: "string \<Rightarrow> jsstring" where
  "str s = map of_char s"

text \<open>\<^verbatim>\<open>\s\<close> in a regular expression, and what \<^verbatim>\<open>trim\<close> strips: WhiteSpace and LineTerminator.\<close>

definition isWhiteSpace :: "code_unit \<Rightarrow> bool" where
  "isWhiteSpace c \<longleftrightarrow>
     c = 0x09 \<or> c = 0x0A \<or> c = 0x0B \<or> c = 0x0C \<or> c = 0x0D \<or> c = 0x20 \<or> c = 0xA0 \<or>
     c = 0x1680 \<or> (0x2000 \<le> c \<and> c \<le> 0x200A) \<or> c = 0x2028 \<or> c = 0x2029 \<or>
     c = 0x202F \<or> c = 0x205F \<or> c = 0x3000 \<or> c = 0xFEFF"

text \<open>What \<^verbatim>\<open>.\<close> does not match (no \<^verbatim>\<open>s\<close> flag).\<close>

definition isLineTerminator :: "code_unit \<Rightarrow> bool" where
  "isLineTerminator c \<longleftrightarrow> c = 0x0A \<or> c = 0x0D \<or> c = 0x2028 \<or> c = 0x2029"

fun startsWith :: "jsstring \<Rightarrow> jsstring \<Rightarrow> bool" where
  "startsWith s [] = True"
| "startsWith [] (c # p) = False"
| "startsWith (d # s) (c # p) = (d = c \<and> startsWith s p)"

fun includesStr :: "jsstring \<Rightarrow> jsstring \<Rightarrow> bool" where
  "includesStr [] p = startsWith [] p"
| "includesStr (c # s) p = (startsWith (c # s) p \<or> includesStr s p)"

text \<open>
  \<^verbatim>\<open>s.replace(p, r)\<close> with a string pattern: only the first occurrence is replaced. The
  replacement is taken literally, which is what JavaScript does for a replacement without
  \<^verbatim>\<open>$\<close>; the application only ever passes the empty string.
\<close>

fun replace :: "jsstring \<Rightarrow> jsstring \<Rightarrow> jsstring \<Rightarrow> jsstring" where
  "replace [] p r = (if startsWith [] p then r else [])"
| "replace (c # s) p r =
     (if startsWith (c # s) p then r @ drop (length p) (c # s) else c # replace s p r)"

definition trimStart :: "jsstring \<Rightarrow> jsstring" where
  "trimStart s = dropWhile isWhiteSpace s"

definition trimEnd :: "jsstring \<Rightarrow> jsstring" where
  "trimEnd s = rev (dropWhile isWhiteSpace (rev s))"

definition trim :: "jsstring \<Rightarrow> jsstring" where
  "trim s = trimEnd (trimStart s)"

section \<open>The directive patterns of \<^verbatim>\<open>processStream\<close> (App.tsx)\<close>

definition CORRECT :: jsstring where
  "CORRECT = str ''[CORRECT]''"

definition IMAGE_OPEN :: jsstring where
  "IMAGE_OPEN = str ''[IMAGE:''"

text \<open>
  \<^verbatim>\<open>(.*?)\]\<close>: the lazy group takes code units that are not line terminators up to the
  first \<^verbatim>\<open>]\<close>. The result is the group and the text after the bracket; \<open>None\<close> when a
  line terminator or the end of the text comes first.
\<close>

fun lazyUntilClose :: "jsstring \<Rightarrow> (jsstring \<times> jsstring) option" where
  "lazyUntilClose [] = None"
| "lazyUntilClose (c # s) =
     (if c = 0x5D then Some ([], s)
      else if isLineTerminator c then None
      else (case lazyUntilClose s of
              None \<Rightarrow> None
            | Some (g, rest) \<Rightarrow> Some (c # g, rest)))"

text \<open>
  \<^verbatim>\<open>\s*(.*?)\]\<close>: the greedy \<^verbatim>\<open>\s*\<close> takes a white space character when the rest of
  the pattern still matches after it, and gives it back to the group otherwise.
\<close>

fun spacesThenGroup :: "jsstring \<Rightarrow> (jsstring \<times> jsstring) option" where
  "spacesThenGroup [] = None"
| "spacesThenGroup (c # s) =
     (if isWhiteSpace c
      then (case spacesThenGroup s of
              Some m \<Rightarrow> Some m
            | None \<Rightarrow> lazyUntilClose (c # s))
      else lazyUntilClose (c # s))"

text \<open>
  \<^verbatim>\<open>imageRegex = /\[IMAGE:\s*(.*?)\]/\<close> tried at the start of the text, and the
  \<^verbatim>\<open>/\[IMAGE:.*?\]/\<close> of the TTS cleaning: group 1 (for the first) and the text after the
  match.
\<close>

definition imageRegexAt :: "jsstring \<Rightarrow> (jsstring \<times> jsstring) option" where
  "imageRegexAt s =
     (if startsWith s IMAGE_OPEN then spacesThenGroup (drop (length IMAGE_OPEN) s) else None)"

definition ttsImageRegexAt :: "jsstring \<Rightarrow> (jsstring \<times> jsstring) option" where
  "ttsImageRegexAt s =
     (if startsWith s IMAGE_OPEN then lazyUntilClose (drop (length IMAGE_OPEN) s) else None)"

text \<open>
  A regular expression without the \<^verbatim>\<open>g\<close> flag finds the leftmost match:
  \<open>regexExec matchAt s\<close> is the text before the match, what \<open>matchAt\<close> returned there, and the text
  after the match.
\<close>

fun regexExec :: "(jsstring \<Rightarrow> ('a \<times> jsstring) option) \<Rightarrow> jsstring
                   \<Rightarrow> (jsstring \<times> 'a \<times> jsstring) option" where
  "regexExec matchAt [] = (case matchAt [] of None \<Rightarrow> None | Some (g, rest) \<Rightarrow> Some ([], g, rest))"
| "regexExec matchAt (c # s) =
     (case matchAt (c # s) of
        Some (g, rest) \<Rightarrow> Some ([], g, rest)
      | None \<Rightarrow> (case regexExec matchAt s of
                   None \<Rightarrow> None
                 | Some (before, g, rest) \<Rightarrow> Some (c # before, g, rest)))"

text \<open>\<^verbatim>\<open>s.replace(regex, "")\<close> for a regular expression without the \<^verbatim>\<open>g\<close> flag.\<close>

definition regexRemove :: "(jsstring \<Rightarrow> ('a \<times> jsstring) option) \<Rightarrow> jsstring \<Rightarrow> jsstring" where
  "regexRemove matchAt s = (case regexExec matchAt s of None \<Rightarrow> s | Some (before, g, rest) \<Rightarrow> before @ rest)"

text \<open>
  The character class of the \<^verbatim>\<open>delimiters\<close> pattern: the ideographic full stop U+3002, the
  fullwidth exclamation and question marks U+FF01 and U+FF1F, and the ASCII \<^verbatim>\<open>!\<close>,
  \<^verbatim>\<open>?\<close> and \<^verbatim>\<open>.\<close>.
\<close>

definition isDelimiter :: "code_unit \<Rightarrow> bool" where
  "isDelimiter c \<longleftrightarrow>
     c = 0x3002 \<or> c = 0xFF01 \<or> c = 0xFF1F \<or> c = 0x21 \<or> c = 0x3F \<or> c = 0x2E"

text \<open>
  The \<^verbatim>\<open>while ((match = delimiters.exec(buffer)) !== null) lastIndex = match.index\<close>
  loop: \<open>i\<close> is the index of the head of the text still to scan.
\<close>

fun scanDelimiters :: "jsstring \<Rightarrow> nat \<Rightarrow> int \<Rightarrow> int" where
  "scanDelimiters [] i lastIndex = lastIndex"
| "scanDelimiters (c # s) i lastIndex =
     scanDelimiters s (i + 1) (if isDelimiter c then int i else lastIndex)"

text \<open>The cleaning applied to a sentence and to the final remainder before \<^verbatim>\<open>playTTS\<close>.\<close>

definition cleanForTTS :: "jsstring \<Rightarrow> jsstring" where
  "cleanForTTS sentence = trim (regexRemove ttsImageRegexAt (replace sentence CORRECT []))"

section \<open>Turn processor: \<^verbatim>\<open>processStream\<close> (App.tsx)\<close>

text \<open>
  The locals of one \<^verbatim>\<open>processStream\<close> call, and the calls it makes, in order:
  \<open>displayed\<close> are the texts passed to \<^verbatim>\<open>setMessages\<close>, \<open>imageRequests\<close> the arguments of
  \<^verbatim>\<open>generateImage\<close>, \<open>ttsCalls\<close> the text and the \<^verbatim>\<open>shouldInterrupt\<close> argument of each
  \<^verbatim>\<open>playTTS\<close>, and \<open>sentences\<close> every value the local \<^verbatim>\<open>sentence\<close> took.
\<close>

record turn =
  fullText :: jsstring
  buffer :: jsstring
  isFirstSentence :: bool
  isCorrectFound :: bool
  imageTriggered :: bool
  displayed :: "jsstring list"
  imageRequests :: "jsstring list"
  sentences :: "jsstring list"
  ttsCalls :: "(jsstring \<times> bool) list"

definition newTurn :: turn where
  "newTurn = \<lparr> fullText = [], buffer = [], isFirstSentence = True, isCorrectFound = False,
               imageTriggered = False, displayed = [], imageRequests = [], sentences = [],
               ttsCalls = [] \<rparr>"

text \<open>The display part of the loop body: directive extraction on the accumulated text.\<close>

definition updateDisplay :: "turn \<Rightarrow> turn" where
  "updateDisplay t =
     (let displayText = fullText t;
          imageMatch = regexExec imageRegexAt displayText;
          t1 = (case imageMatch of
                  None \<Rightarrow> t
                | Some (before, wordToGen, rest) \<Rightarrow>
                    if \<not> imageTriggered t
                    then t\<lparr> imageTriggered := True, imageRequests := imageRequests t @ [wordToGen] \<rparr>
                    else t);
          displayText = (case imageMatch of
                  None \<Rightarrow> displayText
                | Some (before, wordToGen, rest) \<Rightarrow> before @ rest);
          found = includesStr displayText CORRECT;
          displayText = (if found then trimStart (replace displayText CORRECT []) else displayText)
      in t1\<lparr> isCorrectFound := (isCorrectFound t1 \<or> found),
              displayed := displayed t1 @ [displayText] \<rparr>)"

text \<open>The TTS buffering part of the loop body.\<close>

definition speakSentences :: "turn \<Rightarrow> jsstring \<Rightarrow> turn" where
  "speakSentences t chunk =
     (let buf = buffer t @ chunk;
          lastIndex = scanDelimiters buf 0 (-1)
      in if lastIndex \<noteq> -1
         then let sentence = take (nat (lastIndex + 1)) buf;
                  t1 = t\<lparr> buffer := drop (nat (lastIndex + 1)) buf,
                          sentences := sentences t @ [sentence] \<rparr>;
                  ttsText = cleanForTTS sentence
              in if ttsText \<noteq> []
                 then t1\<lparr> ttsCalls := ttsCalls t1 @ [(ttsText, isFirstSentence t1)],
                         isFirstSentence := False \<rparr>
                 else t1
         else t\<lparr> buffer := buf \<rparr>)"

definition onChunk :: "turn \<Rightarrow> jsstring \<Rightarrow> turn" where
  "onChunk t chunk = speakSentences (updateDisplay (t\<lparr> fullText := fullText t @ chunk \<rparr>)) chunk"

text \<open>
  \<^verbatim>\<open>for await (const chunk of stream)\<close>: each increment arrives with the value
  \<^verbatim>\<open>streamSequenceId.current\<close> has at that moment; the loop breaks at the first increment
  that finds it changed.
\<close>

fun forAwait :: "nat \<Rightarrow> turn \<Rightarrow> (nat \<times> jsstring) list \<Rightarrow> turn" where
  "forAwait mySeqId t [] = t"
| "forAwait mySeqId t ((current, chunk) # rest) =
     (if mySeqId \<noteq> current then t else forAwait mySeqId (onChunk t chunk) rest)"

text \<open>The flush of the remaining buffer after the loop.\<close>

definition flushRemainder :: "nat \<Rightarrow> nat \<Rightarrow> turn \<Rightarrow> turn" where
  "flushRemainder mySeqId current t =
     (let remainder = cleanForTTS (buffer t)
      in if remainder \<noteq> [] \<and> mySeqId = current
         then t\<lparr> ttsCalls := ttsCalls t @ [(remainder, isFirstSentence t)] \<rparr>
         else t)"

text \<open>
  The stream either ends or throws; a throw is caught by the \<^verbatim>\<open>try\<close> around the loop,
  which skips the flush. \<open>processStream\<close> is the turn after the loop and the flush;
  the function returns its \<open>isCorrectFound\<close>.
\<close>

datatype stream_end = Exhausted | Threw

definition processStream :: "nat \<Rightarrow> (nat \<times> jsstring) list \<Rightarrow> stream_end \<Rightarrow> nat \<Rightarrow> turn" where
  "processStream mySeqId increments ending current =
     (let t = forAwait mySeqId newTurn increments
      in case ending of
           Threw \<Rightarrow> t
         | Exhausted \<Rightarrow> flushRemainder mySeqId current t)"

text \<open>A turn whose sequence id stays current from the first increment to the flush.\<close>

definition uninterruptedTurn :: "nat \<Rightarrow> jsstring list \<Rightarrow> turn" where
  "uninterruptedTurn mySeqId chunks =
     processStream mySeqId (map (Pair mySeqId) chunks) Exhausted mySeqId"

text \<open>
  The increments of scenario A, 5 fragments of 2, 2, 3, 3 and 2 code units; the third ends
  with U+3002 and the fifth with U+FF1F, both sentence delimiters.
\<close>

definition scenarioA :: "jsstring list" where
  "scenarioA = [[0x4ECA, 0x5929], [0x5929, 0x6C14], [0x771F, 0x597D, 0x3002],
                [0x4F60, 0x89C9, 0x5F97], [0x5462, 0xFF1F]]"

section \<open>Playback scheduler: the module state of services/geminiService\<close>

text \<open>
  Where a \<^verbatim>\<open>processTask\<close> is suspended: waiting for its turn on \<^verbatim>\<open>audioQueue\<close>,
  for \<^verbatim>\<open>audioContext.resume()\<close>, for \<^verbatim>\<open>responsePromise\<close>, for the next chunk of the
  response stream, or for \<^verbatim>\<open>decodeAudioData\<close> (whose result is already computed).
\<close>

datatype pc = Queued | Resuming | AwaitResponse | AwaitChunk
  | Decoding "js_exception + audio_buffer" | Finished

text \<open>
  One \<^verbatim>\<open>playTTS\<close> call that got past the \<^verbatim>\<open>ai\<close> check: its arguments, the id it
  captured, the promise its processing was chained to (\<open>None\<close> is \<^verbatim>\<open>Promise.resolve()\<close>,
  \<open>Some j\<close> the \<^verbatim>\<open>processTask\<close> of task \<open>j\<close>), and the locals of its processing.
\<close>

record task =
  request :: jsstring
  shouldInterrupt :: bool
  myId :: nat
  waitsFor :: "nat option"
  pc :: pc
  isFirstChunk :: bool

text \<open>A source node that was given a buffer and started: \<^verbatim>\<open>source.start(startTime)\<close>.\<close>

record scheduled_unit =
  source :: nat
  owner :: nat
  startTime :: real
  unitDuration :: real

text \<open>
  The module variables, the tasks created so far, and what the module did to the outside:
  the units started on the device, the sources stopped, and the tasks whose \<^verbatim>\<open>onStart\<close>
  callback was called. \<open>currentApiKey\<close> is the truthiness of the key, \<open>ai\<close> and
  \<open>audioContext\<close> say whether the variable is non-null.
\<close>

record service =
  currentApiKey :: bool
  ai :: bool
  audioContext :: bool
  activeSources :: "nat set"
  nextStartTime :: real
  latestTTSId :: nat
  audioQueue :: "nat option"
  tasks :: "task list"
  started :: "scheduled_unit list"
  stoppedSources :: "nat set"
  onStartCalls :: "nat list"

definition initialService :: "bool \<Rightarrow> service" where
  "initialService key =
     \<lparr> currentApiKey = key, ai = False, audioContext = False, activeSources = {},
       nextStartTime = 0, latestTTSId = 0, audioQueue = None, tasks = [], started = [],
       stoppedSources = {}, onStartCalls = [] \<rparr>"

definition initializeGemini :: "service \<Rightarrow> service" where
  "initializeGemini s = (if \<not> currentApiKey s then s else s\<lparr> ai := True \<rparr>)"

definition stopAudio :: "service \<Rightarrow> service" where
  "stopAudio s =
     s\<lparr> latestTTSId := latestTTSId s + 1,
        audioQueue := None,
        stoppedSources := stoppedSources s \<union> activeSources s,
        activeSources := {},
        nextStartTime := (if audioContext s then 0 else nextStartTime s) \<rparr>"

definition getAudioEndTime :: "service \<Rightarrow> real" where
  "getAudioEndTime s = (if \<not> audioContext s then 0 else nextStartTime s)"


text \<open>
  \<^verbatim>\<open>playTTS(text, onStart, shouldInterrupt)\<close>, the synchronous part: the new state and the
  promise returned (\<open>None\<close> is the resolved promise of the early return).
\<close>

definition playTTS :: "jsstring \<Rightarrow> bool \<Rightarrow> service \<Rightarrow> service \<times> nat option" where
  "playTTS text interrupt s =
     (let s1 = (if interrupt then stopAudio s else s);
          captured = latestTTSId s1;
          s2 = (if \<not> ai s1 then initializeGemini s1 else s1)
      in if \<not> ai s2 then (s2, None)
         else (s2\<lparr> tasks := tasks s2 @
                      [\<lparr> request = text, shouldInterrupt = interrupt, myId = captured,
                          waitsFor = audioQueue s2, pc = Queued, isFirstChunk = True \<rparr>],
                    audioQueue := Some (length (tasks s2)) \<rparr>,
               Some (length (tasks s2))))"

text \<open>A promise of the lane is settled when it is \<^verbatim>\<open>Promise.resolve()\<close> or its task returned.\<close>

definition settled :: "service \<Rightarrow> nat option \<Rightarrow> bool" where
  "settled s p = (case p of None \<Rightarrow> True
                  | Some j \<Rightarrow> j < length (tasks s) \<and> pc (tasks s ! j) = Finished)"

section \<open>Playback scheduler: the processing of one task\<close>

text \<open>
  What a chunk of the response stream carries at
  \<^verbatim>\<open>candidates?.[0]?.content?.parts?.[0]?.inlineData?.data\<close>: nothing, a string that
  \<^verbatim>\<open>atob\<close> rejects, or the bytes \<^verbatim>\<open>decode\<close> returns.
\<close>

datatype payload = NoInlineData | BadBase64 | AudioBytes "8 word list"

text \<open>
  What wakes a suspended task: its turn on the lane (with whether \<^verbatim>\<open>audioContext.state\<close>
  is \<^verbatim>\<open>'suspended'\<close> then), the fulfilment of the promise it awaits, the next chunk or the
  end of the stream, or a rejection, which the \<^verbatim>\<open>catch\<close> of the task logs.
\<close>

datatype signal = Turn bool | Resumed | Response | NextChunk payload | StreamDone | Decoded
  | Rejected

definition goto :: "nat \<Rightarrow> pc \<Rightarrow> service \<Rightarrow> service" where
  "goto k p s = s\<lparr> tasks := (tasks s)[k := (tasks s ! k)\<lparr> pc := p \<rparr>] \<rparr>"

text \<open>
  \<^verbatim>\<open>if (shouldInterrupt || nextStartTime < audioContext.currentTime)
    nextStartTime = audioContext.currentTime\<close>
\<close>

definition alignCursor :: "bool \<Rightarrow> real \<Rightarrow> service \<Rightarrow> service" where
  "alignCursor interrupt now s =
     (if interrupt \<or> nextStartTime s < now then s\<lparr> nextStartTime := now \<rparr> else s)"

text \<open>
  The scheduling of one decoded chunk, from \<^verbatim>\<open>createBufferSource\<close> to the \<^verbatim>\<open>onStart\<close>
  call. The new source is numbered by the count of sources started before it.
\<close>

definition scheduleChunk :: "nat \<Rightarrow> audio_buffer \<Rightarrow> real \<Rightarrow> service \<Rightarrow> service" where
  "scheduleChunk k audioBuffer now s =
     (let src = length (started s);
          start = max (nextStartTime s) now;
          t = tasks s ! k
      in s\<lparr> started := started s @
                 [\<lparr> source = src, owner = k, startTime = start,
                     unitDuration = duration audioBuffer \<rparr>],
             nextStartTime := start + duration audioBuffer,
             activeSources := insert src (activeSources s),
             onStartCalls := (if isFirstChunk t then onStartCalls s @ [k] else onStartCalls s),
             tasks := (tasks s)[k := t\<lparr> isFirstChunk := False, pc := AwaitChunk \<rparr>] \<rparr>)"

text \<open>
  One synchronous stretch of \<^verbatim>\<open>processTask\<close> for task \<open>k\<close>, from the point where the
  task is suspended to its next suspension or its return. \<open>now\<close> is
  \<^verbatim>\<open>audioContext.currentTime\<close> during the stretch. A signal the task is not waiting for
  changes nothing, and neither does its turn while the promise it is chained to is pending.
\<close>

fun resume :: "pc \<Rightarrow> signal \<Rightarrow> nat \<Rightarrow> task \<Rightarrow> real \<Rightarrow> service \<Rightarrow> service" where
  "resume Queued (Turn suspended) k t now s =
     (if \<not> settled s (waitsFor t) then s
      else if myId t \<noteq> latestTTSId s then goto k Finished s
      else let s1 = s\<lparr> audioContext := True \<rparr>
           in if suspended then goto k Resuming s1
              else goto k AwaitResponse (alignCursor (shouldInterrupt t) now s1))"
| "resume Resuming Resumed k t now s = goto k AwaitResponse (alignCursor (shouldInterrupt t) now s)"
| "resume Resuming Rejected k t now s = goto k Finished s"
| "resume AwaitResponse Response k t now s =
     goto k AwaitChunk (s\<lparr> tasks := (tasks s)[k := t\<lparr> isFirstChunk := True \<rparr>] \<rparr>)"
| "resume AwaitResponse Rejected k t now s = goto k Finished s"
| "resume AwaitChunk (NextChunk chunk) k t now s =
     (if myId t \<noteq> latestTTSId s then goto k Finished s
      else case chunk of
             NoInlineData \<Rightarrow> s
           | BadBase64 \<Rightarrow> goto k Finished s
           | AudioBytes audioBytes \<Rightarrow> goto k (Decoding (decodeAudioData audioBytes 24000 1)) s)"
| "resume AwaitChunk StreamDone k t now s = goto k Finished s"
| "resume AwaitChunk Rejected k t now s = goto k Finished s"
| "resume (Decoding result) Decoded k t now s =
     (case result of
        Inl e \<Rightarrow> goto k Finished s
      | Inr audioBuffer \<Rightarrow>
          if myId t \<noteq> latestTTSId s then goto k Finished s
          else scheduleChunk k audioBuffer now s)"
| "resume p sig k t now s = s"

definition processTask :: "nat \<Rightarrow> signal \<Rightarrow> real \<Rightarrow> service \<Rightarrow> service" where
  "processTask k sig now s =
     (if k < length (tasks s) then resume (pc (tasks s ! k)) sig k (tasks s ! k) now s else s)"

section \<open>Playback scheduler: interleavings\<close>

text \<open>
  What can happen to the module, one event at a time: a \<^verbatim>\<open>playTTS\<close> call, a
  \<^verbatim>\<open>stopAudio\<close> call, a stretch of some task, and the \<^verbatim>\<open>onended\<close> callback of a source,
  which deletes it from \<^verbatim>\<open>activeSources\<close>.
\<close>

datatype event = Play jsstring bool | Stop | Step nat signal real | Ended nat

fun apply_event :: "service \<Rightarrow> event \<Rightarrow> service" where
  "apply_event s (Play text interrupt) = fst (playTTS text interrupt s)"
| "apply_event s Stop = stopAudio s"
| "apply_event s (Step k sig now) = processTask k sig now s"
| "apply_event s (Ended src) = s\<lparr> activeSources := activeSources s - {src} \<rparr>"

definition run :: "service \<Rightarrow> event list \<Rightarrow> service" where
  "run s events = foldl apply_event s events"

text \<open>
  The events that move the playback cursor back: \<^verbatim>\<open>stopAudio\<close>, alone or at the head of a
  \<^verbatim>\<open>playTTS\<close> with \<^verbatim>\<open>shouldInterrupt\<close>, and the stretch in which a task with
  \<^verbatim>\<open>shouldInterrupt\<close> assigns \<^verbatim>\<open>nextStartTime = audioContext.currentTime\<close>. A
  run is uninterrupted when it has none of them.
\<close>

fun resetsCursor :: "service \<Rightarrow> event \<Rightarrow> bool" where
  "resetsCursor s Stop = True"
| "resetsCursor s (Play text interrupt) = interrupt"
| "resetsCursor s (Ended src) = False"
| "resetsCursor s (Step k sig now) =
     (k < length (tasks s) \<and> shouldInterrupt (tasks s ! k) \<and>
      (pc (tasks s ! k) = Resuming \<and> sig = Resumed \<or>
       pc (tasks s ! k) = Queued \<and> sig = Turn False \<and> settled s (waitsFor (tasks s ! k)) \<and>
         myId (tasks s ! k) = latestTTSId s))"

fun uninterrupted :: "service \<Rightarrow> event list \<Rightarrow> bool" where
  "uninterrupted s [] = True"
| "uninterrupted s (e # es) = (\<not> resetsCursor s e \<and> uninterrupted (apply_event s e) es)"

fun contiguous :: "scheduled_unit list \<Rightarrow> bool" where
  "contiguous (u # v # us) = (startTime u + unitDuration u \<le> startTime v \<and> contiguous (v # us))"
| "contiguous us = True"

section \<open>The application around a turn (App.tsx)\<close>

text \<open>
  The interruption at the head of \<^verbatim>\<open>handleSendMessage\<close>:
  \<^verbatim>\<open>stopAudio(); setIsSpeaking(false); streamSequenceId.current++\<close>.
\<close>

record app =
  svc :: service
  streamSequenceId :: nat
  isSpeaking :: bool
  showCelebration :: bool

definition interruption :: "app \<Rightarrow> app" where
  "interruption a =
     a\<lparr> svc := stopAudio (svc a), isSpeaking := False,
        streamSequenceId := streamSequenceId a + 1 \<rparr>"

text \<open>
  After \<^verbatim>\<open>processStream\<close> returned: \<^verbatim>\<open>if (isCorrect && !showCelebration)
  setShowCelebration(true)\<close>. The result lists the calls made.
\<close>

definition celebrations :: "bool \<Rightarrow> turn \<Rightarrow> bool list" where
  "celebrations showing t = (if isCorrectFound t \<and> \<not> showing then [True] else [])"





text \<open>
  What the guard \<^verbatim>\<open>imageTriggered\<close> maintains: a request is made only while it is unset,
  and sets it.
\<close>

definition imageGuard :: "turn \<Rightarrow> bool" where
  "imageGuard t \<longleftrightarrow>
     length (imageRequests t) \<le> 1 \<and> (imageTriggered t \<or> imageRequests t = [])"




text \<open>
  The cursor is only assigned once an \<^verbatim>\<open>AudioContext\<close> exists: before that it has its
  initial value and no task is past the start of its processing.
\<close>

definition cursorUnset :: "service \<Rightarrow> bool" where
  "cursorUnset s \<longleftrightarrow>
     audioContext s \<or>
     nextStartTime s = 0 \<and> list_all (\<lambda>t. pc t = Queued \<or> pc t = Finished) (tasks s)"

text \<open>
  What an uninterrupted run maintains, for the units \<open>before\<close> it and the cursor it began
  with: the units started since are contiguous and of durations that are not negative, none
  starts before that cursor, and the cursor is at or past the end of the last.
\<close>

definition laidOut :: "scheduled_unit list \<Rightarrow> real \<Rightarrow> service \<Rightarrow> bool" where
  "laidOut before cursor s \<longleftrightarrow>
     (\<exists>new. started s = before @ new \<and> contiguous new \<and>
        list_all (\<lambda>u. 0 \<le> unitDuration u) new \<and>
        (if new = [] then cursor \<le> nextStartTime s
         else cursor \<le> startTime (hd new) \<and>
              startTime (last new) + unitDuration (last new) \<le> nextStartTime s))"

text \<open>Task \<open>k\<close> exists and the counter has moved past the id it captured.\<close>

definition stale :: "nat \<Rightarrow> service \<Rightarrow> bool" where
  "stale k s \<longleftrightarrow> k < length (tasks s) \<and> myId (tasks s ! k) < latestTTSId s"

chapter \<open>Properties\<close>

section \<open>Decoder\<close>

lemma length_int16Array: "length (int16Array bs) = length bs div 2"
  by (induction bs rule: int16Array.induct) auto

lemma uint_word_cat_bytes:
  "uint (word_cat (hi :: 8 word) (lo :: 8 word) :: 16 word) = uint lo + 256 * uint hi"
proof -
  have lo: "0 \<le> uint lo" "uint lo < 256" using uint_lt2p [of lo] by simp_all
  have hi: "0 \<le> uint hi" "uint hi < 256" using uint_lt2p [of hi] by simp_all
  have c: "concat_bit 8 (uint lo) (uint hi) = uint lo + 256 * uint hi"
    using lo by (simp add: concat_bit_eq take_bit_int_eq_self push_bit_eq_mult)
  have t: "take_bit 16 (uint lo + 256 * uint hi) = uint lo + 256 * uint hi"
    using lo hi by (intro take_bit_int_eq_self) auto
  have "uint (word_cat hi lo :: 16 word) = take_bit 16 (concat_bit 8 (uint lo) (uint hi))"
    by (simp only: word_cat_eq' uint_word_of_int_eq len_of_numeral_defs) simp
  then show ?thesis by (simp only: c t)
qed

lemma int16Array_nth:
  "2 * k + 1 < length bs \<Longrightarrow>
   uint (int16Array bs ! k) = uint (bs ! (2 * k)) + 256 * uint (bs ! (2 * k + 1))"
proof (induction bs arbitrary: k rule: int16Array.induct)
  case (1 lo hi rest)
  show ?case
  proof (cases k)
    case 0
    then show ?thesis by (simp add: uint_word_cat_bytes)
  next
    case (Suc j)
    then show ?thesis using 1 by simp
  qed
qed auto

lemma pcm_sample_range:
  fixes w :: "16 word"
  shows "-1 \<le> real_of_int (sint w) / 32768 \<and> real_of_int (sint w) / 32768 < 1"
proof -
  have "- 32768 \<le> sint w" "sint w < 32768"
    using sint_ge [of w] sint_lt [of w] by simp_all
  then have "real_of_int (- 32768) \<le> real_of_int (sint w)"
    "real_of_int (sint w) < real_of_int 32768"
    by (simp_all only: of_int_le_iff of_int_less_iff)
  then show ?thesis by simp
qed

text \<open>When the decoder throws, and which exception.\<close>

lemma decodeAudioData_throws:
  "(odd (length data) \<longrightarrow> decodeAudioData data sr nc = Inl RangeError) \<and>
   (data = [] \<longrightarrow> decodeAudioData data sr nc = Inl NotSupportedError) \<and>
   ((\<exists>b. decodeAudioData data sr nc = Inr b) \<longleftrightarrow>
      even (length data) \<and> nc \<noteq> 0 \<and> sr \<noteq> 0 \<and> length data div 2 div nc \<noteq> 0)"
  by (auto simp: decodeAudioData_def Let_def length_int16Array)

text \<open>With the arguments every call of the program passes: one channel at 24000 Hz.\<close>

lemma decodeAudioData_mono:
  assumes "even (length data)" "data \<noteq> []"
  shows "decodeAudioData data 24000 1
           = Inr \<lparr> ab_numberOfChannels = 1, ab_length = length data div 2, ab_sampleRate = 24000,
                   ab_channelData = [map (\<lambda>w. real_of_int (sint w) / 32768) (int16Array data)] \<rparr>"
proof -
  have "length data \<noteq> 1" using assms(1) by auto
  then have n: "length data div 2 \<noteq> 0" using assms(2) by (cases data) auto
  have l: "length (int16Array data) = length data div 2" by (rule length_int16Array)
  have ne: "int16Array data \<noteq> []" using n l by auto
  have mp: "map (\<lambda>i. real_of_int (sint (int16Array data ! i)) / 32768) [0..<length data div 2]
          = map (\<lambda>w. real_of_int (sint w) / 32768) (int16Array data)"
    by (rule nth_equalityI) (simp_all add: l)
  show ?thesis
    using assms(1) n ne mp by (simp add: decodeAudioData_def Let_def l)
qed

lemma decodeAudioData_general:
  assumes "decodeAudioData data sr nc = Inr buf"
  shows "even (length data) \<and> ab_length buf = length data div 2 div nc \<and>
         length (ab_channelData buf) = nc \<and>
         (\<forall>c < nc. length (ab_channelData buf ! c) = ab_length buf \<and>
            (\<forall>i < ab_length buf.
               ab_channelData buf ! c ! i
                 = real_of_int (sint (int16Array data ! (i * nc + c))) / 32768
             \<and> -1 \<le> ab_channelData buf ! c ! i \<and> ab_channelData buf ! c ! i < 1))"
  using assms pcm_sample_range
  by (auto simp: decodeAudioData_def Let_def length_int16Array split: if_splits)

text \<open>
  C10. \<^verbatim>\<open>decodeAudioData\<close> throws a RangeError on an odd number of bytes and a
  NotSupportedError on none, and produces a buffer exactly when the byte count is even and
  channels, rate and frame count are not zero. Called as the program calls it, on an even,
  non-zero number of bytes it returns a buffer of one channel with half as many samples as
  bytes: the 16-bit integer at index \<open>k\<close> is the two's-complement reading of bytes \<open>2k\<close>
  (low) and \<open>2k+1\<close> (high), each sample is that integer divided by 32768, and every sample
  lies in \<open>[-1, 1)\<close>. For any channel count, sample \<open>i\<close> of channel \<open>c\<close> of a buffer
  produced is the integer at index \<open>i * numChannels + c\<close> divided by 32768, in \<open>[-1, 1)\<close>.
\<close>

theorem decodeAudioData_samples:
  "(odd (length data) \<longrightarrow> decodeAudioData data sr nc = Inl RangeError) \<and>
   (data = [] \<longrightarrow> decodeAudioData data sr nc = Inl NotSupportedError) \<and>
   ((\<exists>b. decodeAudioData data sr nc = Inr b) \<longleftrightarrow>
      even (length data) \<and> nc \<noteq> 0 \<and> sr \<noteq> 0 \<and> length data div 2 div nc \<noteq> 0) \<and>
   (even (length data) \<and> data \<noteq> [] \<longrightarrow>
      decodeAudioData data 24000 1
        = Inr \<lparr> ab_numberOfChannels = 1, ab_length = length data div 2, ab_sampleRate = 24000,
                ab_channelData = [map (\<lambda>w. real_of_int (sint w) / 32768) (int16Array data)] \<rparr> \<and>
      length (map (\<lambda>w. real_of_int (sint w) / 32768) (int16Array data)) = length data div 2 \<and>
      0 < length data div 2) \<and>
   (\<forall>k. 2 * k + 1 < length data \<longrightarrow>
      uint (int16Array data ! k) = uint (data ! (2 * k)) + 256 * uint (data ! (2 * k + 1))) \<and>
   (\<forall>x\<in>set (map (\<lambda>w. real_of_int (sint w) / 32768) (int16Array data)). -1 \<le> x \<and> x < 1) \<and>
   (decodeAudioData data sr nc = Inr buf \<longrightarrow>
      even (length data) \<and> ab_length buf = length data div 2 div nc \<and>
      length (ab_channelData buf) = nc \<and>
      (\<forall>c < nc. length (ab_channelData buf ! c) = ab_length buf \<and>
         (\<forall>i < ab_length buf.
            ab_channelData buf ! c ! i
              = real_of_int (sint (int16Array data ! (i * nc + c))) / 32768
          \<and> -1 \<le> ab_channelData buf ! c ! i \<and> ab_channelData buf ! c ! i < 1)))"
proof -
  have pos: "0 < length data div 2" if "even (length data)" "data \<noteq> []"
  proof -
    have "length data \<noteq> 1" using that(1) by auto
    then show ?thesis using that(2) by (cases data) auto
  qed
  have rng: "\<forall>x\<in>set (map (\<lambda>w. real_of_int (sint w) / 32768) (int16Array data)). -1 \<le> x \<and> x < 1"
    using pcm_sample_range by auto
  have t: "odd (length data) \<longrightarrow> decodeAudioData data sr nc = Inl RangeError"
    "data = [] \<longrightarrow> decodeAudioData data sr nc = Inl NotSupportedError"
    "(\<exists>b. decodeAudioData data sr nc = Inr b) \<longleftrightarrow>
        even (length data) \<and> nc \<noteq> 0 \<and> sr \<noteq> 0 \<and> length data div 2 div nc \<noteq> 0"
    using decodeAudioData_throws [of data sr nc] by simp_all
  have m: "even (length data) \<and> data \<noteq> [] \<longrightarrow>
      decodeAudioData data 24000 1
        = Inr \<lparr> ab_numberOfChannels = 1, ab_length = length data div 2, ab_sampleRate = 24000,
                ab_channelData = [map (\<lambda>w. real_of_int (sint w) / 32768) (int16Array data)] \<rparr> \<and>
      length (map (\<lambda>w. real_of_int (sint w) / 32768) (int16Array data)) = length data div 2 \<and>
      0 < length data div 2"
    using decodeAudioData_mono [of data] pos by (simp add: length_int16Array)
  have b: "\<forall>k. 2 * k + 1 < length data \<longrightarrow>
      uint (int16Array data ! k) = uint (data ! (2 * k)) + 256 * uint (data ! (2 * k + 1))"
    using int16Array_nth by blast
  have g: "decodeAudioData data sr nc = Inr buf \<longrightarrow>
      even (length data) \<and> ab_length buf = length data div 2 div nc \<and>
      length (ab_channelData buf) = nc \<and>
      (\<forall>c < nc. length (ab_channelData buf ! c) = ab_length buf \<and>
         (\<forall>i < ab_length buf.
            ab_channelData buf ! c ! i
              = real_of_int (sint (int16Array data ! (i * nc + c))) / 32768
          \<and> -1 \<le> ab_channelData buf ! c ! i \<and> ab_channelData buf ! c ! i < 1))"
    using decodeAudioData_general [of data sr nc buf] by (rule impI)
  from t m b rng g show ?thesis by (intro conjI)
qed

theorem decodeAudioData_samples_witness:
  "even (length [0xFF, 0x7F, 0x00, 0x80 :: 8 word]) \<and> [0xFF, 0x7F, 0x00, 0x80 :: 8 word] \<noteq> [] \<and>
   decodeAudioData [0xFF, 0x7F, 0x00, 0x80] 24000 1
     = Inr \<lparr> ab_numberOfChannels = 1, ab_length = 2, ab_sampleRate = 24000,
             ab_channelData = [[32767 / 32768, -1]] \<rparr> \<and>
   decodeAudioData [0xFF, 0x7F, 0x00] 24000 1 = Inl RangeError \<and>
   decodeAudioData [] 24000 1 = Inl NotSupportedError"
proof -
  have e: "even (length [0xFF, 0x7F, 0x00, 0x80 :: 8 word])" "[0xFF, 0x7F, 0x00, 0x80 :: 8 word] \<noteq> []"
    by simp_all
  have o: "odd (length [0xFF, 0x7F, 0x00 :: 8 word])" by simp
  have m: "map (\<lambda>w. real_of_int (sint w) / 32768) (int16Array [0xFF, 0x7F, 0x00, 0x80])
             = [32767 / 32768, -1]"
    by (simp add: word_cat_eq)
  from decodeAudioData_samples [of "[0xFF, 0x7F, 0x00, 0x80]" 24000 1] e
  have "decodeAudioData [0xFF, 0x7F, 0x00, 0x80] 24000 1
     = Inr \<lparr> ab_numberOfChannels = 1, ab_length = length [0xFF, 0x7F, 0x00, 0x80 :: 8 word] div 2,
             ab_sampleRate = 24000,
             ab_channelData = [map (\<lambda>w. real_of_int (sint w) / 32768)
                                 (int16Array [0xFF, 0x7F, 0x00, 0x80])] \<rparr>"
    by blast
  then have 1: "decodeAudioData [0xFF, 0x7F, 0x00, 0x80] 24000 1
     = Inr \<lparr> ab_numberOfChannels = 1, ab_length = 2, ab_sampleRate = 24000,
             ab_channelData = [[32767 / 32768, -1]] \<rparr>"
    by (simp only: m) simp
  from decodeAudioData_samples [of "[0xFF, 0x7F, 0x00]" 24000 1] o
  have 2: "decodeAudioData [0xFF, 0x7F, 0x00] 24000 1 = Inl RangeError" by blast
  from decodeAudioData_samples [of "[]" 24000 1]
  have 3: "decodeAudioData [] 24000 1 = Inl NotSupportedError" by blast
  show ?thesis using e 1 2 3 by blast
qed

section \<open>Strings\<close>

lemma startsWith_iff: "startsWith s p \<longleftrightarrow> (\<exists>r. s = p @ r)"
  by (induction s p rule: startsWith.induct) auto

lemma startsWith_append [simp]: "startsWith (p @ r) p"
  by (simp add: startsWith_iff)

lemma includesStr_iff: "includesStr s p \<longleftrightarrow> (\<exists>a b. s = a @ p @ b)"
proof (induction s)
  case Nil
  show ?case by (auto simp: startsWith_iff)
next
  case (Cons c s)
  show ?case
  proof
    assume "includesStr (c # s) p"
    then consider "startsWith (c # s) p" | "includesStr s p" by auto
    then show "\<exists>a b. c # s = a @ p @ b"
    proof cases
      case 1
      then obtain r where "c # s = p @ r" by (auto simp: startsWith_iff)
      then have "c # s = [] @ p @ r" by simp
      then show ?thesis by blast
    next
      case 2
      then obtain a b where "s = a @ p @ b" using Cons.IH by auto
      then have "c # s = (c # a) @ p @ b" by simp
      then show ?thesis by blast
    qed
  next
    assume "\<exists>a b. c # s = a @ p @ b"
    then obtain a b where ab: "c # s = a @ p @ b" by auto
    show "includesStr (c # s) p"
    proof (cases a)
      case Nil
      then have "c # s = p @ b" using ab by simp
      then have "startsWith (c # s) p" unfolding startsWith_iff by (rule exI)
      then show ?thesis by simp
    next
      case (Cons d a')
      then have "s = a' @ p @ b" using ab by simp
      then show ?thesis using Cons.IH by auto
    qed
  qed
qed

lemma replace_absent: "\<not> includesStr s p \<Longrightarrow> replace s p r = s"
  by (induction s) auto

text \<open>\<^verbatim>\<open>replace\<close> with a string pattern rewrites the leftmost occurrence and nothing else.\<close>

lemma replace_first:
  "includesStr s p \<Longrightarrow>
   \<exists>a b. s = a @ p @ b \<and> replace s p r = a @ r @ b \<and>
         (\<forall>a' b'. s = a' @ p @ b' \<longrightarrow> length a \<le> length a')"
proof (induction s)
  case Nil
  then have "p = []" by (cases p) auto
  then show ?case by simp
next
  case (Cons c s)
  show ?case
  proof (cases "startsWith (c # s) p")
    case True
    then obtain b where b: "c # s = p @ b" by (auto simp: startsWith_iff)
    then have "drop (length p) (c # s) = b" by (metis append_eq_conv_conj)
    then have "replace (c # s) p r = [] @ r @ b" using True by simp
    moreover have "c # s = [] @ p @ b" using b by simp
    ultimately show ?thesis by (metis list.size(3) le0)
  next
    case False
    then have inc: "includesStr s p" using Cons.prems by simp
    from Cons.IH [OF inc] obtain a b where ab: "s = a @ p @ b" "replace s p r = a @ r @ b"
      "\<forall>a' b'. s = a' @ p @ b' \<longrightarrow> length a \<le> length a'" by blast
    have "\<forall>a' b'. c # s = a' @ p @ b' \<longrightarrow> length (c # a) \<le> length a'"
    proof (intro allI impI)
      fix a' b' assume e: "c # s = a' @ p @ b'"
      show "length (c # a) \<le> length a'"
      proof (cases a')
        case Nil
        then show ?thesis using e False by (simp add: startsWith_iff)
      next
        case (Cons d a'')
        then have "s = a'' @ p @ b'" using e by simp
        then show ?thesis using ab(3) Cons by auto
      qed
    qed
    moreover have "c # s = (c # a) @ p @ b" "replace (c # s) p r = (c # a) @ r @ b"
      using ab False by simp_all
    ultimately show ?thesis by blast
  qed
qed

lemma trimStart_decomp:
  "\<exists>ws. s = ws @ trimStart s \<and> (\<forall>c\<in>set ws. isWhiteSpace c)"
  unfolding trimStart_def
  by (rule exI [of _ "takeWhile isWhiteSpace s"]) (auto dest: set_takeWhileD)

lemma trimEnd_decomp:
  "\<exists>ws. s = trimEnd s @ ws \<and> (\<forall>c\<in>set ws. isWhiteSpace c)"
proof -
  have "rev s = takeWhile isWhiteSpace (rev s) @ dropWhile isWhiteSpace (rev s)" by simp
  then have "s = rev (dropWhile isWhiteSpace (rev s)) @ rev (takeWhile isWhiteSpace (rev s))"
    by (metis rev_append rev_rev_ident)
  moreover have "\<forall>c\<in>set (rev (takeWhile isWhiteSpace (rev s))). isWhiteSpace c"
    by (auto dest: set_takeWhileD)
  ultimately show ?thesis unfolding trimEnd_def by blast
qed

lemma trim_decomp:
  "\<exists>l r. s = l @ trim s @ r \<and> (\<forall>c\<in>set l. isWhiteSpace c) \<and> (\<forall>c\<in>set r. isWhiteSpace c)"
proof -
  obtain l where l: "s = l @ trimStart s" "\<forall>c\<in>set l. isWhiteSpace c"
    using trimStart_decomp by blast
  obtain r where r: "trimStart s = trimEnd (trimStart s) @ r" "\<forall>c\<in>set r. isWhiteSpace c"
    using trimEnd_decomp by blast
  have "s = l @ trim s @ r" using l(1) r(1) by (simp add: trim_def)
  then show ?thesis using l(2) r(2) by blast
qed

lemma trim_keeps_last:
  assumes "s \<noteq> []" "\<not> isWhiteSpace (last s)"
  shows "trim s \<noteq> [] \<and> last (trim s) = last s"
proof -
  obtain l r where lr: "s = l @ trim s @ r" "\<forall>c\<in>set l. isWhiteSpace c" "\<forall>c\<in>set r. isWhiteSpace c"
    using trim_decomp by blast
  have r: "r = []"
  proof (rule ccontr)
    assume "r \<noteq> []"
    then have "last s = last r" "last r \<in> set r" using lr(1) by (metis last_append append_is_Nil_conv, simp)
    then show False using lr(3) assms(2) by auto
  qed
  have "trim s \<noteq> []"
  proof
    assume "trim s = []"
    then have "s = l" using lr(1) r by simp
    then have "last s \<in> set l" using assms(1) by simp
    then show False using lr(2) assms(2) by auto
  qed
  then show ?thesis using lr(1) r by (metis append_Nil2 last_append)
qed

lemma lazyUntilClose_Some:
  "lazyUntilClose s = Some (g, rest) \<Longrightarrow>
   s = g @ 0x5D # rest \<and> 0x5D \<notin> set g \<and> (\<forall>c\<in>set g. \<not> isLineTerminator c)"
  by (induction s arbitrary: g) (auto split: if_splits option.splits)


lemma spacesThenGroup_Some:
  "spacesThenGroup s = Some (g, rest) \<Longrightarrow>
   \<exists>ws. s = ws @ g @ 0x5D # rest \<and> (\<forall>c\<in>set ws. isWhiteSpace c) \<and> 0x5D \<notin> set g \<and>
        (\<forall>c\<in>set g. \<not> isLineTerminator c)"
proof (induction s)
  case Nil
  then show ?case by simp
next
  case (Cons c s)
  show ?case
  proof (cases "isWhiteSpace c \<and> spacesThenGroup s \<noteq> None")
    case True
    then have "spacesThenGroup s = Some (g, rest)" using Cons.prems by auto
    from Cons.IH [OF this] obtain ws where "s = ws @ g @ 0x5D # rest" "\<forall>c\<in>set ws. isWhiteSpace c"
      "0x5D \<notin> set g" "\<forall>c\<in>set g. \<not> isLineTerminator c" by blast
    then show ?thesis using True by (intro exI [of _ "c # ws"]) simp
  next
    case False
    then have "lazyUntilClose (c # s) = Some (g, rest)" using Cons.prems
      by (auto split: if_splits option.splits)
    from lazyUntilClose_Some [OF this] show ?thesis by (intro exI [of _ "[]"]) simp
  qed
qed

lemma regexExec_Some:
  "regexExec m s = Some (before, g, rest) \<Longrightarrow>
   \<exists>mid. s = before @ mid \<and> m mid = Some (g, rest) \<and>
     (\<forall>k < length before. m (drop k s) = None)"
proof (induction s arbitrary: before)
  case Nil
  then show ?case by (auto split: option.splits)
next
  case (Cons c s)
  show ?case
  proof (cases "m (c # s)")
    case None
    then obtain b' where b': "regexExec m s = Some (b', g, rest)" "before = c # b'"
      using Cons.prems by (auto split: option.splits)
    from Cons.IH [OF b'(1)] obtain mid where mid: "s = b' @ mid" "m mid = Some (g, rest)"
      "\<forall>k < length b'. m (drop k s) = None" by blast
    have "\<forall>k < length before. m (drop k (c # s)) = None"
    proof (intro allI impI)
      fix k assume "k < length before"
      then show "m (drop k (c # s)) = None"
        using None mid(3) b'(2) by (cases k) auto
    qed
    then show ?thesis using mid b'(2) by auto
  next
    case (Some a)
    then show ?thesis using Cons.prems by (auto split: prod.splits)
  qed
qed


lemma ttsImageRegexAt_Some:
  "ttsImageRegexAt s = Some (g, rest) \<Longrightarrow>
   s = IMAGE_OPEN @ g @ 0x5D # rest \<and> 0x5D \<notin> set g \<and> (\<forall>c\<in>set g. \<not> isLineTerminator c)"
proof -
  assume a: "ttsImageRegexAt s = Some (g, rest)"
  then have sw: "startsWith s IMAGE_OPEN" and l: "lazyUntilClose (drop (length IMAGE_OPEN) s) = Some (g, rest)"
    by (auto simp: ttsImageRegexAt_def split: if_splits)
  from sw obtain r where r: "s = IMAGE_OPEN @ r" by (auto simp: startsWith_iff)
  then have "drop (length IMAGE_OPEN) s = r" by simp
  with l lazyUntilClose_Some [of r g rest] r show ?thesis by simp
qed

lemma imageRegexAt_Some:
  "imageRegexAt s = Some (g, rest) \<Longrightarrow>
   \<exists>ws. s = IMAGE_OPEN @ ws @ g @ 0x5D # rest \<and> (\<forall>c\<in>set ws. isWhiteSpace c) \<and>
        0x5D \<notin> set g \<and> (\<forall>c\<in>set g. \<not> isLineTerminator c)"
proof -
  assume a: "imageRegexAt s = Some (g, rest)"
  then have sw: "startsWith s IMAGE_OPEN" and l: "spacesThenGroup (drop (length IMAGE_OPEN) s) = Some (g, rest)"
    by (auto simp: imageRegexAt_def split: if_splits)
  from sw obtain r where r: "s = IMAGE_OPEN @ r" by (auto simp: startsWith_iff)
  then have "drop (length IMAGE_OPEN) s = r" by simp
  with l spacesThenGroup_Some [of r g rest] r show ?thesis by auto
qed

section \<open>Cleaning a sentence for TTS\<close>

lemma CORRECT_last: "CORRECT \<noteq> [] \<and> last CORRECT = 0x5D \<and> hd CORRECT = 0x5B \<and> length CORRECT = 9"
  by (simp add: CORRECT_def str_def)

lemma IMAGE_OPEN_hd: "IMAGE_OPEN \<noteq> [] \<and> hd IMAGE_OPEN = 0x5B \<and> length IMAGE_OPEN = 7"
  by (simp add: IMAGE_OPEN_def str_def)

lemma delimiter_not_bracket: "isDelimiter c \<Longrightarrow> c \<noteq> 0x5D \<and> c \<noteq> 0x5B \<and> \<not> isWhiteSpace c"
  by (auto simp: isDelimiter_def isWhiteSpace_def)

lemma replace_keeps_last:
  assumes "p \<noteq> []" "s \<noteq> []" "last s \<noteq> last p"
  shows "replace s p [] \<noteq> [] \<and> last (replace s p []) = last s"
proof (cases "includesStr s p")
  case False
  then show ?thesis using assms by (simp add: replace_absent)
next
  case True
  from replace_first [OF True, of "[]"] obtain a b where ab: "s = a @ p @ b" "replace s p [] = a @ b"
    by auto
  have "b \<noteq> []" using ab(1) assms by auto
  then show ?thesis using ab by simp
qed

lemma regexRemove_decomp:
  "regexRemove m s = s \<or>
   (\<exists>before g rest mid. s = before @ mid \<and> m mid = Some (g, rest) \<and> regexRemove m s = before @ rest
      \<and> (\<forall>k < length before. m (drop k s) = None))"
proof (cases "regexExec m s")
  case None
  then show ?thesis by (simp add: regexRemove_def)
next
  case (Some r)
  obtain before g rest where r: "r = (before, g, rest)" by (cases r)
  from regexExec_Some [of m s before g rest] Some r
  obtain mid where "s = before @ mid" "m mid = Some (g, rest)"
    "\<forall>k < length before. m (drop k s) = None" by blast
  moreover have "regexRemove m s = before @ rest" using Some r by (simp add: regexRemove_def)
  ultimately show ?thesis by blast
qed

lemma ttsImage_keeps_last:
  assumes "s \<noteq> []" "last s \<noteq> 0x5D"
  shows "regexRemove ttsImageRegexAt s \<noteq> [] \<and> last (regexRemove ttsImageRegexAt s) = last s"
proof -
  from regexRemove_decomp [of ttsImageRegexAt s]
  consider "regexRemove ttsImageRegexAt s = s"
    | before g rest mid where "s = before @ mid" "ttsImageRegexAt mid = Some (g, rest)"
        "regexRemove ttsImageRegexAt s = before @ rest"
    by blast
  then show ?thesis
  proof cases
    case 1
    then show ?thesis using assms by simp
  next
    case 2
    from ttsImageRegexAt_Some [OF 2(2)] have m: "mid = IMAGE_OPEN @ g @ 0x5D # rest" by simp
    have "rest \<noteq> []"
    proof
      assume "rest = []"
      then have "last s = 0x5D" using 2(1) m by simp
      then show False using assms by simp
    qed
    then show ?thesis using 2 m by simp
  qed
qed

lemma cleanForTTS_keeps_last:
  assumes "s \<noteq> []" "isDelimiter (last s)"
  shows "cleanForTTS s \<noteq> [] \<and> last (cleanForTTS s) = last s"
proof -
  have d: "last s \<noteq> 0x5D" "\<not> isWhiteSpace (last s)"
    using delimiter_not_bracket [OF assms(2)] by simp_all
  have 1: "replace s CORRECT [] \<noteq> [] \<and> last (replace s CORRECT []) = last s"
    using replace_keeps_last [of CORRECT s] assms(1) d(1) CORRECT_last by simp
  have 2: "regexRemove ttsImageRegexAt (replace s CORRECT []) \<noteq> [] \<and>
           last (regexRemove ttsImageRegexAt (replace s CORRECT [])) = last s"
    using ttsImage_keeps_last [of "replace s CORRECT []"] 1 d(1) by simp
  show ?thesis
    using trim_keeps_last [of "regexRemove ttsImageRegexAt (replace s CORRECT [])"] 2 d(2)
    by (simp add: cleanForTTS_def)
qed

section \<open>Sentence segmenter\<close>

lemma scanDelimiters_none:
  "\<forall>c\<in>set s. \<not> isDelimiter c \<Longrightarrow> scanDelimiters s i l = l"
  by (induction s arbitrary: i l) auto

lemma scanDelimiters_some:
  "\<exists>c\<in>set s. isDelimiter c \<Longrightarrow>
   \<exists>j < length s. scanDelimiters s i l = int (i + j) \<and> isDelimiter (s ! j) \<and>
      (\<forall>c\<in>set (drop (Suc j) s). \<not> isDelimiter c)"
proof (induction s arbitrary: i l)
  case Nil
  then show ?case by simp
next
  case (Cons c s)
  show ?case
  proof (cases "\<exists>d\<in>set s. isDelimiter d")
    case True
    from Cons.IH [OF True, of "i + 1" "if isDelimiter c then int i else l"]
    obtain j where "j < length s"
      "scanDelimiters s (i + 1) (if isDelimiter c then int i else l) = int (i + 1 + j)"
      "isDelimiter (s ! j)" "\<forall>c\<in>set (drop (Suc j) s). \<not> isDelimiter c"
      by blast
    then show ?thesis
      by (intro exI [of _ "Suc j"]) simp
  next
    case False
    then have "isDelimiter c" using Cons.prems by auto
    then show ?thesis using False
      by (intro exI [of _ 0]) (simp add: scanDelimiters_none)
  qed
qed

text \<open>The cut of the segmenter: where a delimiter occurs, the sentence ends at the last one.\<close>

lemma speakSentences_no_delimiter:
  assumes "\<forall>c\<in>set (buffer t @ chunk). \<not> isDelimiter c"
  shows "speakSentences t chunk = t\<lparr> buffer := buffer t @ chunk \<rparr>"
  using scanDelimiters_none [OF assms, of 0 "-1"]
  by (simp add: speakSentences_def Let_def)

lemma speakSentences_cut:
  assumes "\<exists>c\<in>set (buffer t @ chunk). isDelimiter c"
  shows "\<exists>sentence. sentence \<noteq> [] \<and> isDelimiter (last sentence) \<and>
           sentence @ buffer (speakSentences t chunk) = buffer t @ chunk \<and>
           (\<forall>c\<in>set (buffer (speakSentences t chunk)). \<not> isDelimiter c) \<and>
           sentences (speakSentences t chunk) = sentences t @ [sentence] \<and>
           ttsCalls (speakSentences t chunk) =
             (if cleanForTTS sentence \<noteq> [] then ttsCalls t @ [(cleanForTTS sentence, isFirstSentence t)]
              else ttsCalls t)"
proof -
  define b where "b = buffer t @ chunk"
  from scanDelimiters_some [of b 0 "-1"] assms
  obtain j where j: "j < length b" "scanDelimiters b 0 (-1) = int j" "isDelimiter (b ! j)"
    "\<forall>c\<in>set (drop (Suc j) b). \<not> isDelimiter c"
    unfolding b_def by auto
  have n: "nat (int j + 1) = Suc j" by simp
  have l: "last (take (Suc j) b) = b ! j"
    using j(1) by (simp add: take_Suc_conv_app_nth)
  have ne: "take (Suc j) b \<noteq> []" using j(1) by auto
  have "sentences (speakSentences t chunk) = sentences t @ [take (Suc j) b]"
    "buffer (speakSentences t chunk) = drop (Suc j) b"
    "ttsCalls (speakSentences t chunk) =
       (if cleanForTTS (take (Suc j) b) \<noteq> []
        then ttsCalls t @ [(cleanForTTS (take (Suc j) b), isFirstSentence t)] else ttsCalls t)"
    using j(2) by (simp_all add: speakSentences_def Let_def n b_def [symmetric])
  then show ?thesis
    using j ne l by (intro exI [of _ "take (Suc j) b"]) (simp add: b_def [symmetric])
qed

lemma updateDisplay_frame:
  "buffer (updateDisplay t) = buffer t \<and> sentences (updateDisplay t) = sentences t \<and>
   ttsCalls (updateDisplay t) = ttsCalls t \<and> isFirstSentence (updateDisplay t) = isFirstSentence t \<and>
   fullText (updateDisplay t) = fullText t"
  by (simp add: updateDisplay_def Let_def split: option.splits prod.splits)

lemma CORRECT_code: "CORRECT = [91, 67, 79, 82, 82, 69, 67, 84, 93]"
  by (simp add: CORRECT_def str_def)

lemma IMAGE_OPEN_code: "IMAGE_OPEN = [91, 73, 77, 65, 71, 69, 58]"
  by (simp add: IMAGE_OPEN_def str_def)

lemmas turn_eval = uninterruptedTurn_def processStream_def newTurn_def onChunk_def updateDisplay_def
  speakSentences_def flushRemainder_def cleanForTTS_def regexRemove_def imageRegexAt_def
  ttsImageRegexAt_def CORRECT_code IMAGE_OPEN_code isDelimiter_def isWhiteSpace_def
  isLineTerminator_def trim_def trimStart_def trimEnd_def Let_def

lemma scenarioA_feeds:
  "ttsCalls (forAwait mySeqId newTurn (map (Pair mySeqId) scenarioA))
     = [([0x4ECA, 0x5929, 0x5929, 0x6C14, 0x771F, 0x597D, 0x3002], True),
        ([0x4F60, 0x89C9, 0x5F97, 0x5462, 0xFF1F], False)] \<and>
   buffer (forAwait mySeqId newTurn (map (Pair mySeqId) scenarioA)) = []"
  by (simp add: scenarioA_def turn_eval)

text \<open>
  C4, as the code has it. One increment is appended to the buffer; when the buffer then
  holds a delimiter, exactly one sentence is cut, the prefix up to and including the last
  delimiter, the rest stays as the new buffer, and the cleaned sentence, which is never
  empty, goes to \<^verbatim>\<open>playTTS\<close>; without a delimiter nothing is cut. At the end of the
  stream the cleaned remainder is spoken when it is not empty and the sequence id is still
  the turn's, with or without a delimiter. In scenario A both sentences are cut by feeds,
  the second when the fifth increment arrives, and the flush finds an empty buffer.
\<close>

theorem segmenter_feed_and_flush:
  "(if \<exists>c\<in>set (buffer t @ chunk). isDelimiter c
    then \<exists>sentence. sentence \<noteq> [] \<and> isDelimiter (last sentence) \<and>
           sentence @ buffer (onChunk t chunk) = buffer t @ chunk \<and>
           (\<forall>c\<in>set (buffer (onChunk t chunk)). \<not> isDelimiter c) \<and>
           sentences (onChunk t chunk) = sentences t @ [sentence] \<and>
           cleanForTTS sentence \<noteq> [] \<and>
           ttsCalls (onChunk t chunk) = ttsCalls t @ [(cleanForTTS sentence, isFirstSentence t)]
    else buffer (onChunk t chunk) = buffer t @ chunk \<and>
         sentences (onChunk t chunk) = sentences t \<and> ttsCalls (onChunk t chunk) = ttsCalls t) \<and>
   ttsCalls (flushRemainder mySeqId current t) =
     (if cleanForTTS (buffer t) \<noteq> [] \<and> mySeqId = current
      then ttsCalls t @ [(cleanForTTS (buffer t), isFirstSentence t)] else ttsCalls t) \<and>
   ttsCalls (forAwait mySeqId newTurn (map (Pair mySeqId) scenarioA))
     = [([0x4ECA, 0x5929, 0x5929, 0x6C14, 0x771F, 0x597D, 0x3002], True),
        ([0x4F60, 0x89C9, 0x5F97, 0x5462, 0xFF1F], False)] \<and>
   buffer (forAwait mySeqId newTurn (map (Pair mySeqId) scenarioA)) = [] \<and>
   ttsCalls (uninterruptedTurn mySeqId scenarioA)
     = ttsCalls (forAwait mySeqId newTurn (map (Pair mySeqId) scenarioA))"
proof -
  define u where "u = updateDisplay (t\<lparr> fullText := fullText t @ chunk \<rparr>)"
  have u: "buffer u = buffer t" "sentences u = sentences t" "ttsCalls u = ttsCalls t"
    "isFirstSentence u = isFirstSentence t"
    by (simp_all add: u_def updateDisplay_frame)
  have o: "onChunk t chunk = speakSentences u chunk" by (simp add: onChunk_def u_def)
  have feed: "if \<exists>c\<in>set (buffer t @ chunk). isDelimiter c
    then \<exists>sentence. sentence \<noteq> [] \<and> isDelimiter (last sentence) \<and>
           sentence @ buffer (onChunk t chunk) = buffer t @ chunk \<and>
           (\<forall>c\<in>set (buffer (onChunk t chunk)). \<not> isDelimiter c) \<and>
           sentences (onChunk t chunk) = sentences t @ [sentence] \<and>
           cleanForTTS sentence \<noteq> [] \<and>
           ttsCalls (onChunk t chunk) = ttsCalls t @ [(cleanForTTS sentence, isFirstSentence t)]
    else buffer (onChunk t chunk) = buffer t @ chunk \<and>
         sentences (onChunk t chunk) = sentences t \<and> ttsCalls (onChunk t chunk) = ttsCalls t"
  proof (cases "\<exists>c\<in>set (buffer t @ chunk). isDelimiter c")
    case True
    then have "\<exists>c\<in>set (buffer u @ chunk). isDelimiter c" by (simp add: u)
    from speakSentences_cut [OF this] obtain sentence where s: "sentence \<noteq> []"
      "isDelimiter (last sentence)"
      "sentence @ buffer (speakSentences u chunk) = buffer u @ chunk"
      "\<forall>c\<in>set (buffer (speakSentences u chunk)). \<not> isDelimiter c"
      "sentences (speakSentences u chunk) = sentences u @ [sentence]"
      "ttsCalls (speakSentences u chunk) =
         (if cleanForTTS sentence \<noteq> []
          then ttsCalls u @ [(cleanForTTS sentence, isFirstSentence u)] else ttsCalls u)"
      by blast
    have "cleanForTTS sentence \<noteq> []" using cleanForTTS_keeps_last [OF s(1,2)] by simp
    with s have "sentence \<noteq> [] \<and> isDelimiter (last sentence) \<and>
           sentence @ buffer (onChunk t chunk) = buffer t @ chunk \<and>
           (\<forall>c\<in>set (buffer (onChunk t chunk)). \<not> isDelimiter c) \<and>
           sentences (onChunk t chunk) = sentences t @ [sentence] \<and>
           cleanForTTS sentence \<noteq> [] \<and>
           ttsCalls (onChunk t chunk) = ttsCalls t @ [(cleanForTTS sentence, isFirstSentence t)]"
      by (simp add: o u)
    then have "\<exists>sentence. sentence \<noteq> [] \<and> isDelimiter (last sentence) \<and>
           sentence @ buffer (onChunk t chunk) = buffer t @ chunk \<and>
           (\<forall>c\<in>set (buffer (onChunk t chunk)). \<not> isDelimiter c) \<and>
           sentences (onChunk t chunk) = sentences t @ [sentence] \<and>
           cleanForTTS sentence \<noteq> [] \<and>
           ttsCalls (onChunk t chunk) = ttsCalls t @ [(cleanForTTS sentence, isFirstSentence t)]"
      by (rule exI)
    then show ?thesis using True by (simp only: if_True)
  next
    case False
    then have "\<forall>c\<in>set (buffer u @ chunk). \<not> isDelimiter c" by (simp add: u)
    from speakSentences_no_delimiter [OF this] show ?thesis
      using False by (simp add: o u)
  qed
  have flush: "ttsCalls (flushRemainder mySeqId current t) =
     (if cleanForTTS (buffer t) \<noteq> [] \<and> mySeqId = current
      then ttsCalls t @ [(cleanForTTS (buffer t), isFirstSentence t)] else ttsCalls t)"
    by (simp add: flushRemainder_def Let_def)
  have last: "ttsCalls (uninterruptedTurn mySeqId scenarioA)
     = ttsCalls (forAwait mySeqId newTurn (map (Pair mySeqId) scenarioA))"
    using scenarioA_feeds [of mySeqId]
    by (simp add: uninterruptedTurn_def processStream_def flushRemainder_def Let_def
        cleanForTTS_def regexRemove_def ttsImageRegexAt_def trim_def trimStart_def trimEnd_def
        CORRECT_code IMAGE_OPEN_code)
  show ?thesis using feed flush last scenarioA_feeds [of mySeqId] by (simp only:)
qed

theorem segmenter_feed_and_flush_witness:
  "buffer (onChunk (newTurn\<lparr> buffer := [0x4F60, 0x89C9, 0x5F97] \<rparr>) [0x5462, 0xFF1F, 0x597D]) = [0x597D] \<and>
   ttsCalls (onChunk (newTurn\<lparr> buffer := [0x4F60, 0x89C9, 0x5F97] \<rparr>) [0x5462, 0xFF1F, 0x597D])
     = [([0x4F60, 0x89C9, 0x5F97, 0x5462, 0xFF1F], True)] \<and>
   ttsCalls (flushRemainder 1 1
      (onChunk (newTurn\<lparr> buffer := [0x4F60, 0x89C9, 0x5F97] \<rparr>) [0x5462, 0xFF1F, 0x597D]))
     = [([0x4F60, 0x89C9, 0x5F97, 0x5462, 0xFF1F], True), ([0x597D], False)]"
proof -
  have e: "buffer (onChunk (newTurn\<lparr> buffer := [0x4F60, 0x89C9, 0x5F97] \<rparr>) [0x5462, 0xFF1F, 0x597D]) = [0x597D]"
    "ttsCalls (onChunk (newTurn\<lparr> buffer := [0x4F60, 0x89C9, 0x5F97] \<rparr>) [0x5462, 0xFF1F, 0x597D])
     = [([0x4F60, 0x89C9, 0x5F97, 0x5462, 0xFF1F], True)]"
    "isFirstSentence (onChunk (newTurn\<lparr> buffer := [0x4F60, 0x89C9, 0x5F97] \<rparr>) [0x5462, 0xFF1F, 0x597D]) = False"
    by (simp_all add: turn_eval)
  have c: "cleanForTTS [0x597D] = [0x597D]"
    by (simp add: turn_eval)
  from segmenter_feed_and_flush
    [of "onChunk (newTurn\<lparr> buffer := [0x4F60, 0x89C9, 0x5F97] \<rparr>) [0x5462, 0xFF1F, 0x597D]" "[]" 1 1]
  have "ttsCalls (flushRemainder 1 1
      (onChunk (newTurn\<lparr> buffer := [0x4F60, 0x89C9, 0x5F97] \<rparr>) [0x5462, 0xFF1F, 0x597D]))
     = [([0x4F60, 0x89C9, 0x5F97, 0x5462, 0xFF1F], True), ([0x597D], False)]"
    by (simp only: e c) simp
  then show ?thesis using e by simp
qed

text \<open>
  C4 as the spec words scenario A: the feeds emit only the first sentence and the final
  flush the second. The fifth increment ends with a delimiter, so this is not what happens.
\<close>

theorem scenarioA_final_flush_counterexample:
  "\<not> (ttsCalls (forAwait 1 newTurn (map (Pair 1) scenarioA))
        = [([0x4ECA, 0x5929, 0x5929, 0x6C14, 0x771F, 0x597D, 0x3002], True)] \<and>
      ttsCalls (uninterruptedTurn 1 scenarioA)
        = ttsCalls (forAwait 1 newTurn (map (Pair 1) scenarioA))
            @ [([0x4F60, 0x89C9, 0x5F97, 0x5462, 0xFF1F], False)])"
  using scenarioA_feeds [of 1] by simp

lemma append_eq_shorter:
  assumes "xs @ ys = zs @ ts" "length xs \<le> length zs"
  shows "\<exists>us. zs = xs @ us \<and> ys = us @ ts"
  using assms by (auto simp: append_eq_append_conv2)

text \<open>
  Removing a stretch that holds a single closing bracket, its last character, cannot touch
  two stretches that each end with a closing bracket.
\<close>

lemma bracket_survivor:
  assumes x: "before @ R @ [0x5D] @ rest = a @ C0 @ [0x5D] @ b @ C0 @ [0x5D] @ c"
    and R: "(0x5D :: code_unit) \<notin> set R"
  shows "\<exists>u v. before @ rest = u @ C0 @ [0x5D] @ v"
proof (cases "length a + length C0 < length before")
  case True
  have "(a @ C0 @ [0x5D]) @ (b @ C0 @ [0x5D] @ c) = before @ (R @ [0x5D] @ rest)"
    using x by simp
  moreover have "length (a @ C0 @ [0x5D]) \<le> length before" using True by simp
  ultimately obtain us where "before = (a @ C0 @ [0x5D]) @ us"
    using append_eq_shorter by blast
  then have "before @ rest = a @ C0 @ [0x5D] @ (us @ rest)" by simp
  then show ?thesis by blast
next
  case False
  define e where "e = length a + length C0"
  have e: "length before \<le> e" using False by (simp add: e_def)
  have r: "(a @ C0 @ [0x5D] @ b @ C0 @ [0x5D] @ c) ! e = 0x5D"
    by (simp add: e_def nth_append)
  have "length before + length R \<le> e"
  proof (rule ccontr)
    assume "\<not> length before + length R \<le> e"
    then have lt: "e - length before < length R" using e by simp
    have "(before @ R @ [0x5D] @ rest) ! e = R ! (e - length before)"
      using e lt by (simp add: nth_append)
    then have "R ! (e - length before) = 0x5D" using r x by simp
    then show False using R lt by (metis nth_mem)
  qed
  then have "length (before @ R @ [0x5D]) \<le> length (a @ C0 @ [0x5D] @ b)"
    by (simp add: e_def)
  moreover have "(before @ R @ [0x5D]) @ rest = (a @ C0 @ [0x5D] @ b) @ (C0 @ [0x5D] @ c)"
    using x by simp
  ultimately obtain us where "rest = us @ (C0 @ [0x5D] @ c)"
    using append_eq_shorter [of "before @ R @ [0x5D]" rest "a @ C0 @ [0x5D] @ b" "C0 @ [0x5D] @ c"]
    by blast
  then have "before @ rest = (before @ us) @ C0 @ [0x5D] @ c" by simp
  then show ?thesis by blast
qed

lemma whitespace_not_bracket: "isWhiteSpace c \<Longrightarrow> c \<noteq> 0x5D"
  by (auto simp: isWhiteSpace_def)

lemma CORRECT_split: "CORRECT = butlast CORRECT @ [0x5D]"
  by (simp add: CORRECT_code)

text \<open>Of two markers in the accumulated text, the removal of the image tag leaves one.\<close>

lemma image_removal_leaves_marker:
  assumes "x = a @ CORRECT @ b @ CORRECT @ c"
  shows "includesStr (regexRemove imageRegexAt x) CORRECT"
proof -
  from regexRemove_decomp [of imageRegexAt x]
  consider "regexRemove imageRegexAt x = x"
    | before g rest mid where "x = before @ mid" "imageRegexAt mid = Some (g, rest)"
        "regexRemove imageRegexAt x = before @ rest"
    by blast
  then show ?thesis
  proof cases
    case 1
    then show ?thesis using assms by (auto simp: includesStr_iff)
  next
    case 2
    from imageRegexAt_Some [OF 2(2)] obtain ws where ws: "mid = IMAGE_OPEN @ ws @ g @ 0x5D # rest"
      "\<forall>c\<in>set ws. isWhiteSpace c" "0x5D \<notin> set g" by blast
    define R where "R = IMAGE_OPEN @ ws @ g"
    have R: "0x5D \<notin> set R"
      using ws(2,3) whitespace_not_bracket by (auto simp: R_def IMAGE_OPEN_code)
    obtain C0 where C0: "CORRECT = C0 @ [0x5D]"
      using CORRECT_split by blast
    have "before @ R @ [0x5D] @ rest = a @ C0 @ [0x5D] @ b @ C0 @ [0x5D] @ c"
      using 2(1) ws(1) assms by (simp add: R_def C0)
    from bracket_survivor [OF this R] obtain u v
      where "before @ rest = u @ C0 @ [0x5D] @ v" by blast
    then have "before @ rest = u @ CORRECT @ v" by (simp add: C0)
    then show ?thesis using 2(3) by (auto simp: includesStr_iff)
  qed
qed

section \<open>Directives\<close>

lemma updateDisplay_display:
  "displayed (updateDisplay t) = displayed t @
     [if includesStr (regexRemove imageRegexAt (fullText t)) CORRECT
      then trimStart (replace (regexRemove imageRegexAt (fullText t)) CORRECT [])
      else regexRemove imageRegexAt (fullText t)] \<and>
   isCorrectFound (updateDisplay t) =
     (isCorrectFound t \<or> includesStr (regexRemove imageRegexAt (fullText t)) CORRECT)"
  by (simp add: updateDisplay_def regexRemove_def Let_def split: option.splits prod.splits)

lemma speakSentences_frame:
  "fullText (speakSentences t chunk) = fullText t \<and>
   isCorrectFound (speakSentences t chunk) = isCorrectFound t \<and>
   imageTriggered (speakSentences t chunk) = imageTriggered t \<and>
   imageRequests (speakSentences t chunk) = imageRequests t \<and>
   displayed (speakSentences t chunk) = displayed t"
  by (simp add: speakSentences_def Let_def)

lemma flushRemainder_frame:
  "fullText (flushRemainder m c t) = fullText t \<and>
   isCorrectFound (flushRemainder m c t) = isCorrectFound t \<and>
   imageTriggered (flushRemainder m c t) = imageTriggered t \<and>
   imageRequests (flushRemainder m c t) = imageRequests t \<and>
   displayed (flushRemainder m c t) = displayed t \<and>
   buffer (flushRemainder m c t) = buffer t \<and>
   sentences (flushRemainder m c t) = sentences t"
  by (simp add: flushRemainder_def Let_def)


lemma imageGuard_updateDisplay: "imageGuard t \<Longrightarrow> imageGuard (updateDisplay t)"
  by (auto simp: imageGuard_def updateDisplay_def Let_def split: option.splits prod.splits if_splits)

lemma imageGuard_onChunk: "imageGuard t \<Longrightarrow> imageGuard (onChunk t chunk)"
proof -
  assume "imageGuard t"
  then have "imageGuard (t\<lparr> fullText := fullText t @ chunk \<rparr>)" by (simp add: imageGuard_def)
  then have "imageGuard (updateDisplay (t\<lparr> fullText := fullText t @ chunk \<rparr>))"
    by (rule imageGuard_updateDisplay)
  then show ?thesis by (simp add: onChunk_def imageGuard_def speakSentences_frame)
qed

lemma imageGuard_forAwait: "imageGuard t \<Longrightarrow> imageGuard (forAwait m t increments)"
  by (induction m t increments rule: forAwait.induct) (auto simp: imageGuard_onChunk)

lemma imageGuard_processStream: "imageGuard (processStream m increments ending current)"
proof -
  have "imageGuard (forAwait m newTurn increments)"
    by (rule imageGuard_forAwait) (simp add: imageGuard_def newTurn_def)
  then show ?thesis
    by (cases ending) (simp_all add: processStream_def imageGuard_def flushRemainder_frame)
qed

lemma onChunk_fullText: "fullText (onChunk t chunk) = fullText t @ chunk"
  by (simp add: onChunk_def speakSentences_frame updateDisplay_frame)

lemma onChunk_isCorrectFound:
  "isCorrectFound (onChunk t chunk) =
     (isCorrectFound t \<or> includesStr (regexRemove imageRegexAt (fullText t @ chunk)) CORRECT)"
  by (simp add: onChunk_def speakSentences_frame updateDisplay_display)

lemma forAwait_snoc:
  "forAwait m t (map (Pair m) (chunks @ [chunk])) = onChunk (forAwait m t (map (Pair m) chunks)) chunk"
  by (induction chunks arbitrary: t) simp_all

lemma forAwait_fullText: "fullText (forAwait m t (map (Pair m) chunks)) = fullText t @ concat chunks"
  by (induction chunks arbitrary: t) (simp_all add: onChunk_fullText)

lemma forAwait_marker:
  "includesStr (regexRemove imageRegexAt (concat chunks)) CORRECT \<Longrightarrow>
   isCorrectFound (forAwait m newTurn (map (Pair m) chunks))"
proof (cases chunks rule: rev_cases)
  case Nil
  assume "includesStr (regexRemove imageRegexAt (concat chunks)) CORRECT"
  then show ?thesis using Nil by (simp add: regexRemove_def imageRegexAt_def IMAGE_OPEN_code CORRECT_code)
next
  case (snoc cs c)
  assume a: "includesStr (regexRemove imageRegexAt (concat chunks)) CORRECT"
  have "fullText (forAwait m newTurn (map (Pair m) cs)) @ c = concat chunks"
    using snoc by (simp add: forAwait_fullText newTurn_def)
  then show ?thesis using a snoc
    by (simp only: forAwait_snoc onChunk_isCorrectFound) simp
qed

text \<open>
  C5. Whatever the increments, whenever the turn is abandoned and however the stream ends,
  a turn makes at most one \<^verbatim>\<open>generateImage\<close> request and its caller at most one
  \<^verbatim>\<open>setShowCelebration(true)\<close> call; and when \<^verbatim>\<open>[CORRECT]\<close> occurs twice in the text of
  a turn that runs to its end, the turn returns true and, unless a celebration is already
  showing, the call is made exactly once.
\<close>

theorem directives_fire_once:
  "length (imageRequests (processStream mySeqId increments ending current)) \<le> 1 \<and>
   length (celebrations showing (processStream mySeqId increments ending current)) \<le> 1 \<and>
   (concat chunks = a @ CORRECT @ b @ CORRECT @ c \<longrightarrow>
      isCorrectFound (uninterruptedTurn mySeqId chunks) \<and>
      celebrations False (uninterruptedTurn mySeqId chunks) = [True])"
proof -
  have 1: "length (imageRequests (processStream mySeqId increments ending current)) \<le> 1"
    using imageGuard_processStream [of mySeqId increments ending current]
    by (simp add: imageGuard_def)
  have 2: "length (celebrations showing (processStream mySeqId increments ending current)) \<le> 1"
    by (simp add: celebrations_def)
  have 3: "isCorrectFound (uninterruptedTurn mySeqId chunks) \<and>
      celebrations False (uninterruptedTurn mySeqId chunks) = [True]"
    if "concat chunks = a @ CORRECT @ b @ CORRECT @ c"
  proof -
    have "includesStr (regexRemove imageRegexAt (concat chunks)) CORRECT"
      using image_removal_leaves_marker [OF that] .
    then have "isCorrectFound (forAwait mySeqId newTurn (map (Pair mySeqId) chunks))"
      by (rule forAwait_marker)
    then have "isCorrectFound (uninterruptedTurn mySeqId chunks)"
      by (simp add: uninterruptedTurn_def processStream_def flushRemainder_frame)
    then show ?thesis by (simp add: celebrations_def)
  qed
  show ?thesis using 1 2 3 by blast
qed

theorem directives_fire_once_witness:
  "concat [str ''[CORRECT]a.'', str ''[CORRECT]b.''] = [] @ CORRECT @ str ''a.'' @ CORRECT @ str ''b.'' \<and>
   isCorrectFound (uninterruptedTurn 1 [str ''[CORRECT]a.'', str ''[CORRECT]b.'']) \<and>
   celebrations False (uninterruptedTurn 1 [str ''[CORRECT]a.'', str ''[CORRECT]b.'']) = [True] \<and>
   length (imageRequests (processStream 1 [(1, str ''[IMAGE: a][IMAGE: b]''), (1, str ''.'')] Exhausted 1)) \<le> 1"
proof -
  have e: "concat [str ''[CORRECT]a.'', str ''[CORRECT]b.''] = [] @ CORRECT @ str ''a.'' @ CORRECT @ str ''b.''"
    by (simp add: str_def CORRECT_code)
  from directives_fire_once [of 1 "[(1, str ''[IMAGE: a][IMAGE: b]''), (1, str ''.'')]" Exhausted 1
      False "[str ''[CORRECT]a.'', str ''[CORRECT]b.'']" "[]" "str ''a.''" "str ''b.''"] e
  show ?thesis by blast
qed

section \<open>Non-global replacement\<close>














section \<open>Lossless segmentation\<close>
















section \<open>Interruption\<close>

lemma goto_frame:
  "currentApiKey (goto k p s) = currentApiKey s \<and> ai (goto k p s) = ai s \<and>
   audioContext (goto k p s) = audioContext s \<and> activeSources (goto k p s) = activeSources s \<and>
   nextStartTime (goto k p s) = nextStartTime s \<and> latestTTSId (goto k p s) = latestTTSId s \<and>
   audioQueue (goto k p s) = audioQueue s \<and> started (goto k p s) = started s \<and>
   stoppedSources (goto k p s) = stoppedSources s \<and> onStartCalls (goto k p s) = onStartCalls s \<and>
   length (tasks (goto k p s)) = length (tasks s)"
  by (simp add: goto_def)

lemma goto_tasks:
  "k < length (tasks s) \<Longrightarrow>
   tasks (goto k p s) ! j = (if j = k then (tasks s ! k)\<lparr> pc := p \<rparr> else tasks s ! j)"
  by (simp add: goto_def nth_list_update)

lemma list_all_update: "list_all P xs \<Longrightarrow> P x \<Longrightarrow> list_all P (xs[k := x])"
  by (auto simp: list_all_iff dest: set_update_subset_insert [THEN subsetD])

lemma cursorUnset_stopAudio: "cursorUnset s \<Longrightarrow> cursorUnset (stopAudio s)"
  by (auto simp: cursorUnset_def stopAudio_def)

lemma cursorUnset_playTTS: "cursorUnset s \<Longrightarrow> cursorUnset (fst (playTTS text interrupt s))"
proof -
  assume a: "cursorUnset s"
  define s1 where "s1 = (if interrupt then stopAudio s else s)"
  have "cursorUnset s1" using a by (simp add: s1_def cursorUnset_stopAudio)
  then show ?thesis
    by (auto simp: playTTS_def Let_def s1_def [symmetric] cursorUnset_def initializeGemini_def)
qed

lemma cursorUnset_goto:
  "cursorUnset s \<Longrightarrow> audioContext s \<or> p = Queued \<or> p = Finished \<Longrightarrow> cursorUnset (goto k p s)"
  by (auto simp: cursorUnset_def goto_def intro: list_all_update)

lemma cursorUnset_resume:
  assumes "cursorUnset s" "k < length (tasks s)"
  shows "cursorUnset (resume (pc (tasks s ! k)) sig k (tasks s ! k) now s)"
proof (cases "audioContext s")
  case True
  have "audioContext (resume p sig k t now s)" for p t
    by (cases "(p, sig, k, t, now, s)" rule: resume.cases)
       (auto simp: True goto_frame alignCursor_def scheduleChunk_def Let_def
             split: payload.splits sum.splits)
  then show ?thesis by (simp add: cursorUnset_def)
next
  case False
  then have q: "pc (tasks s ! k) = Queued \<or> pc (tasks s ! k) = Finished"
    using assms by (auto simp: cursorUnset_def list_all_length)
  have a: "cursorUnset (goto k AwaitResponse (alignCursor b now (s\<lparr> audioContext := True \<rparr>)))" for b
    by (simp add: cursorUnset_def goto_def alignCursor_def)
  have b: "cursorUnset (goto k Resuming (s\<lparr> audioContext := True \<rparr>))"
    by (simp add: cursorUnset_def goto_def)
  from q show ?thesis
  proof
    assume "pc (tasks s ! k) = Queued"
    then show ?thesis using assms(1) a b
      by (cases "sig") (auto simp: cursorUnset_goto Let_def)
  next
    assume "pc (tasks s ! k) = Finished"
    then show ?thesis using assms(1) by (cases "sig") auto
  qed
qed

lemma cursorUnset_apply_event: "cursorUnset s \<Longrightarrow> cursorUnset (apply_event s e)"
proof (cases e)
  case (Play request flag)
  assume "cursorUnset s"
  then show ?thesis using Play by (simp add: cursorUnset_playTTS)
next
  case Stop
  assume "cursorUnset s"
  then show ?thesis using Stop by (simp add: cursorUnset_stopAudio)
next
  case (Step k sig now)
  assume "cursorUnset s"
  then show ?thesis using Step by (simp add: processTask_def cursorUnset_resume)
next
  case (Ended src)
  assume "cursorUnset s"
  then show ?thesis using Ended by (simp add: cursorUnset_def)
qed

lemma run_Nil: "run s [] = s"
  by (simp add: run_def)

lemma run_Cons: "run s (e # es) = run (apply_event s e) es"
  by (simp add: run_def)

lemma run_snoc: "run s (es @ [e]) = apply_event (run s es) e"
  by (simp add: run_def)

lemma cursorUnset_run: "cursorUnset s \<Longrightarrow> cursorUnset (run s events)"
  by (induction events arbitrary: s) (simp_all add: run_Nil run_Cons cursorUnset_apply_event)

lemma cursorUnset_initial: "cursorUnset (initialService key)"
  by (simp add: cursorUnset_def initialService_def)

text \<open>
  C6. Whatever has happened to the module since it was loaded, right after \<^verbatim>\<open>stopAudio\<close>
  the live set is empty, every source that was in it has been stopped, the lane is the
  resolved promise, the cursor is zero and \<^verbatim>\<open>getAudioEndTime\<close> returns zero; a second
  call leaves the live set, the lane and the cursor as the first left them; and the task of
  a \<^verbatim>\<open>playTTS\<close> call made next waits for no earlier task.
\<close>

theorem stopAudio_clears:
  "activeSources (stopAudio (run (initialService key) events)) = {} \<and>
   activeSources (run (initialService key) events)
     \<subseteq> stoppedSources (stopAudio (run (initialService key) events)) \<and>
   audioQueue (stopAudio (run (initialService key) events)) = None \<and>
   settled (stopAudio (run (initialService key) events))
     (audioQueue (stopAudio (run (initialService key) events))) \<and>
   nextStartTime (stopAudio (run (initialService key) events)) = 0 \<and>
   getAudioEndTime (stopAudio (run (initialService key) events)) = 0 \<and>
   activeSources (stopAudio (stopAudio (run (initialService key) events)))
     = activeSources (stopAudio (run (initialService key) events)) \<and>
   audioQueue (stopAudio (stopAudio (run (initialService key) events)))
     = audioQueue (stopAudio (run (initialService key) events)) \<and>
   nextStartTime (stopAudio (stopAudio (run (initialService key) events)))
     = nextStartTime (stopAudio (run (initialService key) events)) \<and>
   (snd (playTTS sentence interrupt (stopAudio (run (initialService key) events))) = Some j \<longrightarrow>
      waitsFor (tasks (fst (playTTS sentence interrupt
                  (stopAudio (run (initialService key) events)))) ! j) = None)"
proof -
  define s where "s = run (initialService key) events"
  have "cursorUnset s" unfolding s_def by (rule cursorUnset_run [OF cursorUnset_initial])
  then have "audioContext s \<or> nextStartTime s = 0" by (auto simp: cursorUnset_def)
  then have 1: "activeSources (stopAudio s) = {} \<and>
     activeSources s \<subseteq> stoppedSources (stopAudio s) \<and>
     audioQueue (stopAudio s) = None \<and>
     settled (stopAudio s) (audioQueue (stopAudio s)) \<and>
     nextStartTime (stopAudio s) = 0 \<and>
     getAudioEndTime (stopAudio s) = 0 \<and>
     activeSources (stopAudio (stopAudio s)) = activeSources (stopAudio s) \<and>
     audioQueue (stopAudio (stopAudio s)) = audioQueue (stopAudio s) \<and>
     nextStartTime (stopAudio (stopAudio s)) = nextStartTime (stopAudio s)"
    by (auto simp: stopAudio_def getAudioEndTime_def settled_def)
  have q: "audioQueue (stopAudio t) = None" for t by (simp add: stopAudio_def)
  have 2: "snd (playTTS sentence interrupt (stopAudio s)) = Some j \<longrightarrow>
      waitsFor (tasks (fst (playTTS sentence interrupt (stopAudio s))) ! j) = None"
    by (cases interrupt) (auto simp: playTTS_def initializeGemini_def Let_def q)
  show ?thesis unfolding s_def [symmetric] using 1 2 by blast
qed

lemmas service_eval = run_def playTTS_def stopAudio_def initializeGemini_def initialService_def
  processTask_def goto_def alignCursor_def scheduleChunk_def settled_def decodeAudioData_def
  duration_def Let_def word_cat_eq

theorem stopAudio_clears_witness:
  "activeSources (run (initialService True)
      [Play [] True, Step 0 (Turn False) 5, Step 0 Response 5,
       Step 0 (NextChunk (AudioBytes [0, 0, 1, 0])) 6, Step 0 Decoded 6, Play [] False]) = {0} \<and>
   nextStartTime (run (initialService True)
      [Play [] True, Step 0 (Turn False) 5, Step 0 Response 5,
       Step 0 (NextChunk (AudioBytes [0, 0, 1, 0])) 6, Step 0 Decoded 6, Play [] False]) = 6 + 1 / 12000 \<and>
   activeSources (stopAudio (run (initialService True)
      [Play [] True, Step 0 (Turn False) 5, Step 0 Response 5,
       Step 0 (NextChunk (AudioBytes [0, 0, 1, 0])) 6, Step 0 Decoded 6, Play [] False])) = {} \<and>
   nextStartTime (stopAudio (run (initialService True)
      [Play [] True, Step 0 (Turn False) 5, Step 0 Response 5,
       Step 0 (NextChunk (AudioBytes [0, 0, 1, 0])) 6, Step 0 Decoded 6, Play [] False])) = 0"
proof -
  define E where "E = [Play [] True, Step 0 (Turn False) 5, Step 0 Response 5,
       Step 0 (NextChunk (AudioBytes [0, 0, 1, 0])) 6, Step 0 Decoded 6, Play [] False]"
  have e: "activeSources (run (initialService True) E) = {0}"
    "nextStartTime (run (initialService True) E) = 6 + 1 / 12000"
    unfolding E_def by (simp_all add: service_eval)
  from stopAudio_clears [of True E "[]" False 0]
  have "activeSources (stopAudio (run (initialService True) E)) = {}"
    "nextStartTime (stopAudio (run (initialService True) E)) = 0"
    by (rule conjunct1, simp)
  then show ?thesis using e unfolding E_def by (simp only:) 
qed

text \<open>
  C7, as the code has it. \<^verbatim>\<open>stopAudio\<close> increments \<^verbatim>\<open>latestTTSId\<close> by one; besides that
  id, the lane, the live set, the stopped sources and the cursor, it leaves the module as it
  was. It cannot reach \<^verbatim>\<open>streamSequenceId\<close>, which the interruption of
  \<^verbatim>\<open>handleSendMessage\<close> increments itself after calling it.
\<close>

theorem stopAudio_frame:
  "latestTTSId (stopAudio s) = latestTTSId s + 1 \<and>
   currentApiKey (stopAudio s) = currentApiKey s \<and> ai (stopAudio s) = ai s \<and>
   audioContext (stopAudio s) = audioContext s \<and> tasks (stopAudio s) = tasks s \<and>
   started (stopAudio s) = started s \<and> onStartCalls (stopAudio s) = onStartCalls s \<and>
   streamSequenceId (a\<lparr> svc := stopAudio (svc a) \<rparr>) = streamSequenceId a \<and>
   svc (interruption a) = stopAudio (svc a) \<and>
   streamSequenceId (interruption a) = streamSequenceId a + 1 \<and>
   latestTTSId (svc (interruption a)) = latestTTSId (svc a) + 1"
  by (simp add: stopAudio_def interruption_def)

theorem stopAudio_frame_witness:
  "latestTTSId (stopAudio (initialService True)) = 1 \<and>
   tasks (stopAudio (fst (playTTS [] False (initialService True))))
     = tasks (fst (playTTS [] False (initialService True))) \<and>
   streamSequenceId (interruption \<lparr> svc = initialService True, streamSequenceId = 4,
       isSpeaking = True, showCelebration = False \<rparr>) = 5"
  using stopAudio_frame [of "initialService True"
      "\<lparr> svc = initialService True, streamSequenceId = 4, isSpeaking = True,
         showCelebration = False \<rparr>"]
    stopAudio_frame [of "fst (playTTS [] False (initialService True))"]
  by (simp add: initialService_def)

text \<open>C7 as stated: \<^verbatim>\<open>stopAudio\<close> leaves the epoch counter \<^verbatim>\<open>latestTTSId\<close> unchanged.\<close>

theorem stopAudio_bumps_counterexample:
  "latestTTSId (stopAudio (initialService True)) \<noteq> latestTTSId (initialService True)"
  by (simp add: stopAudio_def initialService_def)

section \<open>The end of speaking\<close>



section \<open>Gapless scheduling\<close>

lemma contiguous_snoc:
  "contiguous (us @ [u]) \<longleftrightarrow>
     contiguous us \<and> (us = [] \<or> startTime (last us) + unitDuration (last us) \<le> startTime u)"
  by (induction us rule: contiguous.induct) auto

lemma contiguous_nth:
  "contiguous us \<longleftrightarrow>
     (\<forall>i. Suc i < length us \<longrightarrow> startTime (us ! i) + unitDuration (us ! i) \<le> startTime (us ! Suc i))"
proof (induction us rule: contiguous.induct)
  case (1 u v us)
  show ?case
  proof
    assume a: "contiguous (u # v # us)"
    show "\<forall>i. Suc i < length (u # v # us) \<longrightarrow>
            startTime ((u # v # us) ! i) + unitDuration ((u # v # us) ! i)
              \<le> startTime ((u # v # us) ! Suc i)"
    proof (intro allI impI)
      fix i assume "Suc i < length (u # v # us)"
      then show "startTime ((u # v # us) ! i) + unitDuration ((u # v # us) ! i)
              \<le> startTime ((u # v # us) ! Suc i)"
        using a 1 by (cases i) auto
    qed
  next
    assume a: "\<forall>i. Suc i < length (u # v # us) \<longrightarrow>
            startTime ((u # v # us) ! i) + unitDuration ((u # v # us) ! i)
              \<le> startTime ((u # v # us) ! Suc i)"
    then have "startTime u + unitDuration u \<le> startTime v" by (auto dest: spec [of _ 0])
    moreover have "\<forall>i. Suc i < length (v # us) \<longrightarrow>
            startTime ((v # us) ! i) + unitDuration ((v # us) ! i) \<le> startTime ((v # us) ! Suc i)"
      using a by (auto dest: spec [of _ "Suc i" for i])
    ultimately show "contiguous (u # v # us)" using 1 by simp
  qed
qed simp_all

lemma laidOut_mono:
  assumes "laidOut before c s" "started s' = started s" "nextStartTime s \<le> nextStartTime s'"
  shows "laidOut before c s'"
proof -
  from assms(1) obtain new where new: "started s = before @ new" "contiguous new"
    "if new = [] then c \<le> nextStartTime s
     else c \<le> startTime (hd new) \<and> startTime (last new) + unitDuration (last new) \<le> nextStartTime s"
    and d: "list_all (\<lambda>u. 0 \<le> unitDuration u) new"
    unfolding laidOut_def by blast
  have "if new = [] then c \<le> nextStartTime s'
     else c \<le> startTime (hd new) \<and> startTime (last new) + unitDuration (last new) \<le> nextStartTime s'"
    using new(3) assms(3) by (cases "new = []") simp_all
  then have "started s' = before @ new \<and> contiguous new \<and>
     list_all (\<lambda>u. 0 \<le> unitDuration u) new \<and>
     (if new = [] then c \<le> nextStartTime s'
      else c \<le> startTime (hd new) \<and>
           startTime (last new) + unitDuration (last new) \<le> nextStartTime s')"
    using new(1,2) d assms(2) by simp
  then show ?thesis unfolding laidOut_def by (rule exI)
qed

lemma laidOut_schedule:
  assumes "laidOut before c s"
  shows "laidOut before c (scheduleChunk k audioBuffer now s)"
proof -
  from assms obtain new where new: "started s = before @ new" "contiguous new"
    "if new = [] then c \<le> nextStartTime s
     else c \<le> startTime (hd new) \<and> startTime (last new) + unitDuration (last new) \<le> nextStartTime s"
    and d: "list_all (\<lambda>u. 0 \<le> unitDuration u) new"
    unfolding laidOut_def by blast
  define u where "u = \<lparr> source = length (started s), owner = k,
     startTime = max (nextStartTime s) now, unitDuration = duration audioBuffer \<rparr>"
  have st: "started (scheduleChunk k audioBuffer now s) = before @ (new @ [u])"
    "nextStartTime (scheduleChunk k audioBuffer now s) = startTime u + unitDuration u"
    by (simp_all add: scheduleChunk_def Let_def u_def new(1))
  have su: "nextStartTime s \<le> startTime u" by (simp add: u_def)
  have "contiguous (new @ [u])" using new(2,3) su by (auto simp: contiguous_snoc split: if_splits)
  moreover have "c \<le> startTime (hd (new @ [u]))" using new(3) su by (cases new) auto
  moreover have "list_all (\<lambda>u. 0 \<le> unitDuration u) (new @ [u])"
    using d by (simp add: u_def duration_def)
  ultimately have "started (scheduleChunk k audioBuffer now s) = before @ (new @ [u]) \<and>
     contiguous (new @ [u]) \<and> list_all (\<lambda>u. 0 \<le> unitDuration u) (new @ [u]) \<and>
     (if new @ [u] = [] then c \<le> nextStartTime (scheduleChunk k audioBuffer now s)
      else c \<le> startTime (hd (new @ [u])) \<and>
           startTime (last (new @ [u])) + unitDuration (last (new @ [u]))
             \<le> nextStartTime (scheduleChunk k audioBuffer now s))"
    using st by simp
  then show ?thesis unfolding laidOut_def by (rule exI)
qed

lemma laidOut_goto:
  assumes "laidOut before c s"
  shows "laidOut before c (goto k p s)"
  using assms by (rule laidOut_mono) (simp_all add: goto_frame)

lemma laidOut_align:
  assumes "laidOut before c s"
  shows "laidOut before c (alignCursor False now s)"
  using assms by (rule laidOut_mono) (simp_all add: alignCursor_def)

lemma laidOut_resume:
  assumes "laidOut before c s"
    and "\<not> (shouldInterrupt t \<and>
           (p = Resuming \<and> sig = Resumed \<or>
            p = Queued \<and> sig = Turn False \<and> settled s (waitsFor t) \<and> myId t = latestTTSId s))"
  shows "laidOut before c (resume p sig k t now s)"
proof -
  have ctx: "laidOut before c (s\<lparr> audioContext := True \<rparr>)"
    using assms(1) by (rule laidOut_mono) simp_all
  have fc: "laidOut before c (s\<lparr> tasks := ts \<rparr>)" for ts
    using assms(1) by (rule laidOut_mono) simp_all
  have al: "laidOut before c (alignCursor False now (s\<lparr> audioContext := True \<rparr>))"
    using ctx by (rule laidOut_align)
  show ?thesis
  proof (cases "(p, sig, k, t, now, s)" rule: resume.cases)
    case (1 suspended k' t' now' s')
    then show ?thesis using assms ctx al
      by (cases suspended; cases "shouldInterrupt t'") (simp_all add: laidOut_goto Let_def)
  next
    case (2 k' t' now' s')
    then show ?thesis using assms by (simp add: laidOut_goto laidOut_align)
  next
    case (4 k' t' now' s')
    then show ?thesis using fc by (simp add: laidOut_goto)
  next
    case (6 chunk k' t' now' s')
    then show ?thesis using assms(1) by (cases chunk) (simp_all add: laidOut_goto)
  next
    case (9 result k' t' now' s')
    then show ?thesis using assms(1) by (cases result) (simp_all add: laidOut_goto laidOut_schedule)
  qed (simp_all add: assms(1) laidOut_goto)
qed

lemma laidOut_playTTS:
  assumes "laidOut before c s"
  shows "laidOut before c (fst (playTTS tx False s))"
  using assms by (rule laidOut_mono) (simp_all add: playTTS_def Let_def initializeGemini_def)

lemma laidOut_apply_event:
  assumes "laidOut before c s" "\<not> resetsCursor s e"
  shows "laidOut before c (apply_event s e)"
proof (cases e)
  case (Play tx flag)
  then show ?thesis using assms by (simp add: laidOut_playTTS)
next
  case Stop
  then show ?thesis using assms by simp
next
  case (Step k sg now)
  then show ?thesis using assms by (auto simp: processTask_def intro!: laidOut_resume)
next
  case (Ended src)
  show ?thesis using assms(1) unfolding Ended by (simp, rule laidOut_mono) simp_all
qed

lemma laidOut_run:
  "laidOut before c s \<Longrightarrow> uninterrupted s events \<Longrightarrow> laidOut before c (run s events)"
  by (induction events arbitrary: s) (simp_all add: run_Nil run_Cons laidOut_apply_event)

text \<open>
  C1. A turn's first \<^verbatim>\<open>playTTS\<close> call is the only one with \<^verbatim>\<open>shouldInterrupt\<close>, and the
  first stretch of its task sets the cursor to the device's time; every unit of the turn is
  scheduled in the run that follows. In any run without \<^verbatim>\<open>stopAudio\<close>, without a
  \<^verbatim>\<open>playTTS\<close> that interrupts and without such a cursor reset, whatever else is
  interleaved, the units started are contiguous: each starts at or after the start of its
  predecessor plus the predecessor's duration, so start times never decrease, and the first
  starts at or after the cursor the run began with.
\<close>

theorem units_contiguous:
  assumes "uninterrupted s events"
  shows "\<exists>new. started (run s events) = started s @ new \<and>
           (\<forall>i. Suc i < length new \<longrightarrow>
              startTime (new ! i) + unitDuration (new ! i) \<le> startTime (new ! Suc i) \<and>
              startTime (new ! i) \<le> startTime (new ! Suc i)) \<and>
           (new \<noteq> [] \<longrightarrow> nextStartTime s \<le> startTime (hd new))"
proof -
  have "laidOut (started s) (nextStartTime s) s" by (simp add: laidOut_def)
  then have "laidOut (started s) (nextStartTime s) (run s events)"
    using assms by (rule laidOut_run)
  then obtain new where new: "started (run s events) = started s @ new" "contiguous new"
    "list_all (\<lambda>u. 0 \<le> unitDuration u) new"
    and c: "if new = [] then nextStartTime s \<le> nextStartTime (run s events)
       else nextStartTime s \<le> startTime (hd new) \<and>
            startTime (last new) + unitDuration (last new) \<le> nextStartTime (run s events)"
    unfolding laidOut_def by blast
  have h: "new \<noteq> [] \<longrightarrow> nextStartTime s \<le> startTime (hd new)"
    using c by (cases "new = []") simp_all
  have "startTime (new ! i) + unitDuration (new ! i) \<le> startTime (new ! Suc i) \<and>
        startTime (new ! i) \<le> startTime (new ! Suc i)" if "Suc i < length new" for i
  proof -
    have "startTime (new ! i) + unitDuration (new ! i) \<le> startTime (new ! Suc i)"
      using new(2) that contiguous_nth [of new] by blast
    moreover have "0 \<le> unitDuration (new ! i)"
      using new(3) that by (simp add: list_all_length)
    ultimately show ?thesis by simp
  qed
  then show ?thesis using new(1) h by blast
qed

theorem units_contiguous_witness:
  "uninterrupted (run (initialService True) [Play [] True, Step 0 (Turn False) 5])
     [Step 0 Response 5, Step 0 (NextChunk (AudioBytes [0, 0, 1, 0])) 6, Step 0 Decoded 6,
      Step 0 (NextChunk (AudioBytes [2, 0, 3, 0])) 6, Step 0 Decoded 6, Play [] False,
      Step 0 StreamDone 7, Step 1 (Turn False) 7, Step 1 Response 7,
      Step 1 (NextChunk (AudioBytes [0, 0, 1, 0])) 8, Step 1 Decoded 8] \<and>
   map startTime (started (run (run (initialService True) [Play [] True, Step 0 (Turn False) 5])
     [Step 0 Response 5, Step 0 (NextChunk (AudioBytes [0, 0, 1, 0])) 6, Step 0 Decoded 6,
      Step 0 (NextChunk (AudioBytes [2, 0, 3, 0])) 6, Step 0 Decoded 6, Play [] False,
      Step 0 StreamDone 7, Step 1 (Turn False) 7, Step 1 Response 7,
      Step 1 (NextChunk (AudioBytes [0, 0, 1, 0])) 8, Step 1 Decoded 8]))
     = [6, 6 + 1 / 12000, 8] \<and>
   (\<exists>new. started (run (run (initialService True) [Play [] True, Step 0 (Turn False) 5])
     [Step 0 Response 5, Step 0 (NextChunk (AudioBytes [0, 0, 1, 0])) 6, Step 0 Decoded 6,
      Step 0 (NextChunk (AudioBytes [2, 0, 3, 0])) 6, Step 0 Decoded 6, Play [] False,
      Step 0 StreamDone 7, Step 1 (Turn False) 7, Step 1 Response 7,
      Step 1 (NextChunk (AudioBytes [0, 0, 1, 0])) 8, Step 1 Decoded 8]) = new \<and>
      startTime (new ! 0) + unitDuration (new ! 0) \<le> startTime (new ! 1) \<and>
      startTime (new ! 1) + unitDuration (new ! 1) \<le> startTime (new ! 2))"
proof -
  define S where "S = run (initialService True) [Play [] True, Step 0 (Turn False) 5]"
  define E where "E = [Step 0 Response 5, Step 0 (NextChunk (AudioBytes [0, 0, 1, 0])) 6,
      Step 0 Decoded 6, Step 0 (NextChunk (AudioBytes [2, 0, 3, 0])) 6, Step 0 Decoded 6,
      Play [] False, Step 0 StreamDone 7, Step 1 (Turn False) 7, Step 1 Response 7,
      Step 1 (NextChunk (AudioBytes [0, 0, 1, 0])) 8, Step 1 Decoded 8]"
  have S: "S = \<lparr> currentApiKey = True, ai = True, audioContext = True, activeSources = {},
       nextStartTime = 5, latestTTSId = 1, audioQueue = Some 0,
       tasks = [\<lparr> request = [], shouldInterrupt = True, myId = 1, waitsFor = None,
                  pc = AwaitResponse, isFirstChunk = True \<rparr>],
       started = [], stoppedSources = {}, onStartCalls = [] \<rparr>"
    unfolding S_def by (simp add: service_eval)
  have u: "uninterrupted S E" unfolding S E_def by (simp add: service_eval)
  have m: "map startTime (started (run S E)) = [6, 6 + 1 / 12000, 8]"
    unfolding S E_def by (simp add: service_eval)
  have s0: "started S = []" by (simp add: S)
  from units_contiguous [OF u] s0 obtain new where new: "started (run S E) = new"
    "\<forall>i. Suc i < length new \<longrightarrow>
       startTime (new ! i) + unitDuration (new ! i) \<le> startTime (new ! Suc i)"
    by auto
  have "length new = 3" using m new(1) by (metis length_map length_Cons list.size(3) numeral_3_eq_3)
  then have "startTime (new ! 0) + unitDuration (new ! 0) \<le> startTime (new ! 1)"
    "startTime (new ! 1) + unitDuration (new ! 1) \<le> startTime (new ! 2)"
    using new(2) [rule_format, of 0] new(2) [rule_format, of 1] by (simp_all add: numeral_2_eq_2)
  then show ?thesis using u m new(1) unfolding S_def E_def by blast
qed

section \<open>Stale tasks\<close>

text \<open>A stretch of a task whose captured id is no longer the current one has no effect outside.\<close>

lemma resume_stale:
  assumes "myId t \<noteq> latestTTSId s"
  shows "started (resume p sig k t now s) = started s \<and>
         activeSources (resume p sig k t now s) = activeSources s \<and>
         onStartCalls (resume p sig k t now s) = onStartCalls s \<and>
         stoppedSources (resume p sig k t now s) = stoppedSources s"
proof (cases "(p, sig, k, t, now, s)" rule: resume.cases)
  case (2 k' t' now' s')
  then show ?thesis by (simp add: goto_frame alignCursor_def)
next
  case (4 k' t' now' s')
  then show ?thesis by (simp add: goto_frame)
next
  case (9 result k' t' now' s')
  then show ?thesis using assms by (cases result) (simp_all add: goto_frame)
qed (simp_all add: assms goto_frame)

text \<open>No stretch changes the id a task captured, and the counter never decreases.\<close>

lemma resume_ids:
  assumes "k < length (tasks s)" "j < length (tasks s)"
  shows "length (tasks (resume p sig k (tasks s ! k) now s)) = length (tasks s) \<and>
         myId (tasks (resume p sig k (tasks s ! k) now s) ! j) = myId (tasks s ! j) \<and>
         latestTTSId (resume p sig k (tasks s ! k) now s) = latestTTSId s"
proof (cases "(p, sig, k, tasks s ! k, now, s)" rule: resume.cases)
  case (1 suspended k' t' now' s')
  then show ?thesis using assms
    by (cases suspended) (simp_all add: goto_def alignCursor_def Let_def nth_list_update)
next
  case (2 k' t' now' s')
  then show ?thesis using assms by (simp add: goto_def alignCursor_def nth_list_update)
next
  case (4 k' t' now' s')
  then show ?thesis using assms by (simp add: goto_def nth_list_update)
next
  case (6 chunk k' t' now' s')
  then show ?thesis using assms by (cases chunk) (simp_all add: goto_def nth_list_update)
next
  case (9 result k' t' now' s')
  then show ?thesis using assms
    by (cases result) (simp_all add: goto_def scheduleChunk_def Let_def nth_list_update)
qed (simp_all add: assms goto_def nth_list_update)

text \<open>What a stretch of another task adds to the logs is not the stale task's.\<close>

lemma resume_other:
  assumes "j \<noteq> k"
  shows "filter (\<lambda>u. owner u = k) (started (resume p sig j t now s))
           = filter (\<lambda>u. owner u = k) (started s) \<and>
         filter (\<lambda>i. i = k) (onStartCalls (resume p sig j t now s))
           = filter (\<lambda>i. i = k) (onStartCalls s)"
proof (cases "(p, sig, j, t, now, s)" rule: resume.cases)
  case (1 suspended k' t' now' s')
  then show ?thesis by (cases suspended) (simp_all add: goto_frame alignCursor_def Let_def)
next
  case (2 k' t' now' s')
  then show ?thesis by (simp add: goto_frame alignCursor_def)
next
  case (4 k' t' now' s')
  then show ?thesis by (simp add: goto_frame)
next
  case (6 chunk k' t' now' s')
  then show ?thesis by (cases chunk) (simp_all add: goto_frame)
next
  case (9 result k' t' now' s')
  then show ?thesis using assms
    by (cases result) (simp_all add: goto_frame scheduleChunk_def Let_def)
qed (simp_all add: goto_frame)


lemma stale_apply_event:
  assumes "stale k s"
  shows "stale k (apply_event s e) \<and>
         filter (\<lambda>u. owner u = k) (started (apply_event s e)) = filter (\<lambda>u. owner u = k) (started s) \<and>
         filter (\<lambda>i. i = k) (onStartCalls (apply_event s e)) = filter (\<lambda>i. i = k) (onStartCalls s)"
proof (cases e)
  case (Play tx flag)
  then show ?thesis using assms
    by (auto simp: stale_def playTTS_def stopAudio_def initializeGemini_def Let_def nth_append)
next
  case Stop
  then show ?thesis using assms by (auto simp: stale_def stopAudio_def)
next
  case (Ended src)
  then show ?thesis using assms by (auto simp: stale_def)
next
  case (Step j sg now)
  show ?thesis
  proof (cases "j < length (tasks s)")
    case False
    then show ?thesis using assms Step by (simp add: processTask_def)
  next
    case True
    have k: "k < length (tasks s)" "myId (tasks s ! k) < latestTTSId s"
      using assms by (simp_all add: stale_def)
    from resume_ids [OF True k(1), of "pc (tasks s ! j)" sg now]
    have st: "stale k (apply_event s e)"
      using k True Step by (simp add: stale_def processTask_def)
    show ?thesis
    proof (cases "j = k")
      case True
      have "myId (tasks s ! k) \<noteq> latestTTSId s" using k(2) by simp
      from resume_stale [OF this, of "pc (tasks s ! k)" sg k now]
      show ?thesis using st Step True k(1) by (simp add: processTask_def)
    next
      case False
      from resume_other [OF False, of "pc (tasks s ! j)" sg "tasks s ! j" now s]
      show ?thesis using st Step True by (simp add: processTask_def)
    qed
  qed
qed

lemma stale_run:
  "stale k s \<Longrightarrow>
   stale k (run s events) \<and>
   filter (\<lambda>u. owner u = k) (started (run s events)) = filter (\<lambda>u. owner u = k) (started s) \<and>
   filter (\<lambda>i. i = k) (onStartCalls (run s events)) = filter (\<lambda>i. i = k) (onStartCalls s)"
proof (induction events arbitrary: s)
  case Nil
  then show ?case by (simp add: run_Nil)
next
  case (Cons e es)
  from stale_apply_event [OF Cons.prems, of e] Cons.IH [of "apply_event s e"]
  show ?case by (simp add: run_Cons)
qed

text \<open>In every state the module can reach, no task holds an id above the counter.\<close>

lemma ids_bounded_apply_event:
  assumes "\<forall>t\<in>set (tasks s). myId t \<le> latestTTSId s"
  shows "\<forall>t\<in>set (tasks (apply_event s e)). myId t \<le> latestTTSId (apply_event s e)"
proof (cases e)
  case (Play tx flag)
  then show ?thesis using assms
    by (auto simp: playTTS_def stopAudio_def initializeGemini_def Let_def intro: le_SucI)
next
  case Stop
  then show ?thesis using assms by (auto simp: stopAudio_def intro: le_SucI)
next
  case (Ended src)
  then show ?thesis using assms by simp
next
  case (Step j sg now)
  show ?thesis
  proof (cases "j < length (tasks s)")
    case False
    then show ?thesis using assms Step by (simp add: processTask_def)
  next
    case True
    have "myId (tasks (apply_event s e) ! i) \<le> latestTTSId (apply_event s e)"
      if "i < length (tasks (apply_event s e))" for i
    proof -
      have i: "i < length (tasks s)"
        using that resume_ids [OF True True, of "pc (tasks s ! j)" sg now] Step True
        by (simp add: processTask_def)
      from resume_ids [OF True i, of "pc (tasks s ! j)" sg now] assms i
      show ?thesis using Step True by (simp add: processTask_def)
    qed
    then show ?thesis by (auto simp: in_set_conv_nth)
  qed
qed

lemma ids_bounded:
  "\<forall>t\<in>set (tasks (run (initialService key) events)). myId t \<le> latestTTSId (run (initialService key) events)"
proof (induction events rule: rev_induct)
  case Nil
  show ?case by (simp add: run_Nil initialService_def)
next
  case (snoc e es)
  from ids_bounded_apply_event [OF snoc.IH, of e] show ?case by (simp only: run_snoc)
qed

text \<open>
  C2. Once the counter \<^verbatim>\<open>latestTTSId\<close> has moved past the id a task captured, which is what
  a bump during the task does, since the module never holds a task with an id above the
  counter, then whatever happens next, the task stays stale, the units it started and its
  \<^verbatim>\<open>onStart\<close> calls are those it had made before, and any further stretch of it starts no
  source, adds nothing to the live set and calls no \<^verbatim>\<open>onStart\<close>. When the task wakes up
  at the head of the lane, on a chunk of the stream or after a decode, the check comes
  first and the task does nothing but return.
\<close>

theorem stale_task_is_silent:
  assumes "k < length (tasks s)" and "myId (tasks s ! k) < latestTTSId s"
  shows "k < length (tasks (run s events)) \<and>
         myId (tasks (run s events) ! k) < latestTTSId (run s events) \<and>
         filter (\<lambda>u. owner u = k) (started (run s events)) = filter (\<lambda>u. owner u = k) (started s) \<and>
         filter (\<lambda>i. i = k) (onStartCalls (run s events)) = filter (\<lambda>i. i = k) (onStartCalls s) \<and>
         started (processTask k sig now (run s events)) = started (run s events) \<and>
         activeSources (processTask k sig now (run s events)) = activeSources (run s events) \<and>
         onStartCalls (processTask k sig now (run s events)) = onStartCalls (run s events) \<and>
         (pc (tasks (run s events) ! k) = Queued \<and>
          settled (run s events) (waitsFor (tasks (run s events) ! k)) \<longrightarrow>
            processTask k (Turn suspended) now (run s events) = goto k Finished (run s events)) \<and>
         (pc (tasks (run s events) ! k) = AwaitChunk \<longrightarrow>
            processTask k (NextChunk chunk) now (run s events) = goto k Finished (run s events)) \<and>
         (pc (tasks (run s events) ! k) = Decoding result \<longrightarrow>
            processTask k Decoded now (run s events) = goto k Finished (run s events))"
proof -
  have "stale k s" using assms by (simp add: stale_def)
  from stale_run [OF this, of events]
  have r: "stale k (run s events)"
    "filter (\<lambda>u. owner u = k) (started (run s events)) = filter (\<lambda>u. owner u = k) (started s)"
    "filter (\<lambda>i. i = k) (onStartCalls (run s events)) = filter (\<lambda>i. i = k) (onStartCalls s)"
    by simp_all
  have k: "k < length (tasks (run s events))"
    "myId (tasks (run s events) ! k) < latestTTSId (run s events)"
    using r(1) by (simp_all add: stale_def)
  then have n: "myId (tasks (run s events) ! k) \<noteq> latestTTSId (run s events)" by simp
  have c: "pc (tasks (run s events) ! k) = Decoding result \<longrightarrow>
            processTask k Decoded now (run s events) = goto k Finished (run s events)"
    using k(1) n by (cases result) (simp_all add: processTask_def)
  from resume_stale [OF n, of "pc (tasks (run s events) ! k)" sig k now]
  show ?thesis using k r(2,3) n c by (simp add: processTask_def)
qed

theorem stale_task_is_silent_witness:
  "0 < length (tasks (run (initialService True)
      [Play [] True, Step 0 (Turn False) 5, Step 0 Response 5,
       Step 0 (NextChunk (AudioBytes [0, 0, 1, 0])) 6, Stop])) \<and>
   myId (tasks (run (initialService True)
      [Play [] True, Step 0 (Turn False) 5, Step 0 Response 5,
       Step 0 (NextChunk (AudioBytes [0, 0, 1, 0])) 6, Stop]) ! 0)
     < latestTTSId (run (initialService True)
      [Play [] True, Step 0 (Turn False) 5, Step 0 Response 5,
       Step 0 (NextChunk (AudioBytes [0, 0, 1, 0])) 6, Stop]) \<and>
   map owner (started (run (initialService True)
      [Play [] True, Step 0 (Turn False) 5, Step 0 Response 5,
       Step 0 (NextChunk (AudioBytes [0, 0, 1, 0])) 6, Step 0 Decoded 6])) = [0] \<and>
   filter (\<lambda>u. owner u = 0) (started (run (run (initialService True)
      [Play [] True, Step 0 (Turn False) 5, Step 0 Response 5,
       Step 0 (NextChunk (AudioBytes [0, 0, 1, 0])) 6, Stop])
      [Step 0 Decoded 6, Play [] False, Step 1 (Turn False) 7, Step 1 Response 7,
       Step 1 (NextChunk (AudioBytes [0, 0, 1, 0])) 8, Step 1 Decoded 8])) = [] \<and>
   map owner (started (run (run (initialService True)
      [Play [] True, Step 0 (Turn False) 5, Step 0 Response 5,
       Step 0 (NextChunk (AudioBytes [0, 0, 1, 0])) 6, Stop])
      [Step 0 Decoded 6, Play [] False, Step 1 (Turn False) 7, Step 1 Response 7,
       Step 1 (NextChunk (AudioBytes [0, 0, 1, 0])) 8, Step 1 Decoded 8])) = [1] \<and>
   filter (\<lambda>i. i = 0) (onStartCalls (run (run (initialService True)
      [Play [] True, Step 0 (Turn False) 5, Step 0 Response 5,
       Step 0 (NextChunk (AudioBytes [0, 0, 1, 0])) 6, Stop])
      [Step 0 Decoded 6, Play [] False, Step 1 (Turn False) 7, Step 1 Response 7,
       Step 1 (NextChunk (AudioBytes [0, 0, 1, 0])) 8, Step 1 Decoded 8])) = []"
proof -
  define S where "S = run (initialService True)
      [Play [] True, Step 0 (Turn False) 5, Step 0 Response 5,
       Step 0 (NextChunk (AudioBytes [0, 0, 1, 0])) 6, Stop]"
  define E where "E = [Step 0 Decoded 6, Play [] False, Step 1 (Turn False) 7, Step 1 Response 7,
       Step 1 (NextChunk (AudioBytes [0, 0, 1, 0])) 8, Step 1 Decoded 8]"
  have S: "S = \<lparr> currentApiKey = True, ai = True, audioContext = True, activeSources = {},
       nextStartTime = 0, latestTTSId = 2, audioQueue = None,
       tasks = [\<lparr> request = [], shouldInterrupt = True, myId = 1, waitsFor = None,
                  pc = Decoding (Inr \<lparr> ab_numberOfChannels = 1, ab_length = 2,
                          ab_sampleRate = 24000, ab_channelData = [[0, 1 / 32768]] \<rparr>),
                  isFirstChunk = True \<rparr>],
       started = [], stoppedSources = {}, onStartCalls = [] \<rparr>"
    unfolding S_def by (simp add: service_eval upt_rec)
  have h: "0 < length (tasks S)" "myId (tasks S ! 0) < latestTTSId S" by (simp_all add: S)
  have c: "map owner (started (run (initialService True)
      [Play [] True, Step 0 (Turn False) 5, Step 0 Response 5,
       Step 0 (NextChunk (AudioBytes [0, 0, 1, 0])) 6, Step 0 Decoded 6])) = [0]"
    by (simp add: service_eval upt_rec)
  have m: "map owner (started (run S E)) = [1]"
    unfolding S E_def by (simp add: service_eval upt_rec)
  from stale_task_is_silent [OF h, of E]
  have "filter (\<lambda>u. owner u = 0) (started (run S E)) = filter (\<lambda>u. owner u = 0) (started S)"
    "filter (\<lambda>i. i = 0) (onStartCalls (run S E)) = filter (\<lambda>i. i = 0) (onStartCalls S)"
    by simp_all
  then have "filter (\<lambda>u. owner u = 0) (started (run S E)) = []"
    "filter (\<lambda>i. i = 0) (onStartCalls (run S E)) = []"
    by (simp_all add: S)
  then show ?thesis using h c m unfolding S_def E_def by blast
qed

end
